theory Spec2Isabelle
  imports Complex_Main "HOL-Library.Extended_Nat" "HOL-Library.Finite_Map"
    "HOL-Library.Multiset"
begin

section \<open>Python values shared by the models\<close>

text \<open>
  The exceptions the modelled code can raise. A function that can raise returns
  \<open>py_error + 'a\<close>, with \<open>Inl\<close> for the exception. \<open>NotFoundError\<close> and
  \<open>InvalidArgumentError\<close> are the errors of the tensor library, for a missing file
  and for an operation on tensors of the wrong shape.
\<close>

datatype py_error =
  ValueError | TypeError | IndexError | KeyError | ZeroDivisionError | NotFoundError |
  InvalidArgumentError

text \<open>
  Python's \<open>xs[i]\<close> for an integer \<open>i\<close>: a negative index counts from the end,
  and an index outside \<open>-len(xs) .. len(xs) - 1\<close> raises \<open>IndexError\<close>.
\<close>

definition py_getitem :: "'a list \<Rightarrow> int \<Rightarrow> py_error + 'a" where
  "py_getitem xs i =
     (if 0 \<le> i \<and> i < int (length xs) then Inr (xs ! nat i)
      else if i < 0 \<and> - int (length xs) \<le> i then Inr (xs ! nat (int (length xs) + i))
      else Inl IndexError)"

text \<open>Python's \<open>xs.insert(i, x)\<close> for \<open>i \<ge> 0\<close>: beyond the end it appends.\<close>

definition list_insert :: "nat \<Rightarrow> 'a \<Rightarrow> 'a list \<Rightarrow> 'a list" where
  "list_insert i x xs = take i xs @ [x] @ drop i xs"

text \<open>
  \<open>sorted(xs, key=key, reverse=True)\<close>: Python's sort is stable, also with
  \<open>reverse=True\<close>, so the result is in descending key order and elements with equal
  keys keep the order they had in \<open>xs\<close>. The model is the insertion sort that puts
  an element in front of the first element whose key is not larger.
\<close>

fun insort_desc :: "('a \<Rightarrow> 'k::linorder) \<Rightarrow> 'a \<Rightarrow> 'a list \<Rightarrow> 'a list" where
  "insort_desc key x [] = [x]"
| "insort_desc key x (y # ys) =
     (if key y \<le> key x then x # y # ys else y # insort_desc key x ys)"

definition sorted_desc :: "('a \<Rightarrow> 'k::linorder) \<Rightarrow> 'a list \<Rightarrow> 'a list" where
  "sorted_desc key xs = foldr (insort_desc key) xs []"

section \<open>The vocabulary (yimt/core/data/vocab.py)\<close>

text \<open>
  The three fields of \<open>Vocab\<close>. A frequency is a count or \<open>float("inf")\<close>, hence
  \<open>enat\<close>; a dictionary is a finite map.
\<close>

record vocab =
  token_to_id :: "(string, nat) fmap"
  id_to_token :: "string list"
  frequency :: "enat list"

definition empty_vocab :: vocab where
  "empty_vocab = \<lparr>token_to_id = fmempty, id_to_token = [], frequency = []\<rparr>"

text \<open>The loop of \<open>__init__\<close> over \<open>enumerate(special_tokens)\<close>.\<close>

fun init_loop :: "nat \<Rightarrow> string list \<Rightarrow> vocab \<Rightarrow> vocab" where
  "init_loop index [] v = v"
| "init_loop index (token # rest) v =
     init_loop (Suc index) rest
       (v\<lparr>token_to_id := fmupd token index (token_to_id v),
          id_to_token := list_insert index token (id_to_token v),
          frequency := list_insert index \<infinity> (frequency v)\<rparr>)"

definition Vocab_init :: "string list option \<Rightarrow> vocab" where
  "Vocab_init special_tokens =
     (case special_tokens of
        None \<Rightarrow> empty_vocab
      | Some toks \<Rightarrow> init_loop 0 toks empty_vocab)"

definition size_vocab :: "vocab \<Rightarrow> nat" where
  "size_vocab v = length (id_to_token v)"

text \<open>
  \<open>add\<close>: \<open>tf.compat.as_text\<close> is the identity on text. The increment
  \<open>self._frequency[i] += 1\<close> raises \<open>IndexError\<close> when the frequency list is too short.
\<close>

definition add :: "string \<Rightarrow> vocab \<Rightarrow> py_error + vocab" where
  "add token v =
     (case fmlookup (token_to_id v) token of
        None \<Rightarrow>
          Inr (v\<lparr>token_to_id := fmupd token (size_vocab v) (token_to_id v),
                 id_to_token := id_to_token v @ [token],
                 frequency := frequency v @ [1]\<rparr>)
      | Some i \<Rightarrow>
          if i < length (frequency v)
          then Inr (v\<lparr>frequency := (frequency v)[i := frequency v ! i + 1]\<rparr>)
          else Inl IndexError)"

subsection \<open>prune\<close>

text \<open>
  The loop \<open>for i in range(new_size - 1, 0, -1)\<close>: \<open>discard_scan\<close> is called at
  \<open>i = new_size - 1\<close> and never looks at index 0.
\<close>

fun discard_scan :: "enat list \<Rightarrow> enat \<Rightarrow> nat list \<Rightarrow> nat \<Rightarrow> nat \<Rightarrow> nat" where
  "discard_scan freq min_frequency sorted_ids 0 new_size = new_size"
| "discard_scan freq min_frequency sorted_ids (Suc i) new_size =
     (if freq ! (sorted_ids ! Suc i) < min_frequency
      then discard_scan freq min_frequency sorted_ids i (new_size - 1)
      else new_size)"

text \<open>The loop \<open>for i in range(new_size)\<close> that fills the new vocabulary.\<close>

fun fill_loop :: "vocab \<Rightarrow> nat list \<Rightarrow> nat list \<Rightarrow> vocab \<Rightarrow> vocab" where
  "fill_loop v sorted_ids [] new_vocab = new_vocab"
| "fill_loop v sorted_ids (i # rest) new_vocab =
     (let index = sorted_ids ! i;
          token = id_to_token v ! index;
          freq = frequency v ! index
      in fill_loop v sorted_ids rest
           (new_vocab\<lparr>token_to_id := fmupd token i (token_to_id new_vocab),
                      id_to_token := id_to_token new_vocab @ [token],
                      frequency := frequency new_vocab @ [freq]\<rparr>))"

text \<open>
  \<open>prune\<close>. The sort key reads \<open>self._frequency[k]\<close> for every \<open>k < size\<close>, which
  raises \<open>IndexError\<close> when the frequency list is shorter than the token list. A
  threshold that is not a count compares like the next count above it, and one below
  zero like zero.
\<close>

definition prune :: "int \<Rightarrow> enat \<Rightarrow> vocab \<Rightarrow> py_error + vocab" where
  "prune max_size min_frequency v =
     (if length (frequency v) < size_vocab v then Inl IndexError
      else
        let sorted_ids = sorted_desc (\<lambda>k. frequency v ! k) [0..<size_vocab v];
            new_size = length sorted_ids;
            new_size = discard_scan (frequency v) min_frequency sorted_ids
                         (new_size - 1) new_size;
            new_size = (if max_size > 0 then min new_size (nat max_size) else new_size)
        in Inr (fill_loop v sorted_ids [0..<new_size] empty_vocab))"

subsection \<open>lookup\<close>

text \<open>
  \<open>lookup\<close> takes a string or an integer, and returns an id, a token or the caller's
  default. The integer branch tests \<open>identifier < self.size\<close> only and then indexes
  the token list the way Python does.
\<close>

datatype lookup_key = Text string | Index int

datatype 'd looked_up = Found_id nat | Found_token string | Default 'd

definition lookup :: "lookup_key \<Rightarrow> 'd \<Rightarrow> vocab \<Rightarrow> py_error + 'd looked_up" where
  "lookup ident dflt v =
     (case ident of
        Text s \<Rightarrow>
          (case fmlookup (token_to_id v) s of
             None \<Rightarrow> Inr (Default dflt)
           | Some i \<Rightarrow> Inr (Found_id i))
      | Index i \<Rightarrow>
          if i < int (size_vocab v)
          then (case py_getitem (id_to_token v) i of
                  Inl e \<Rightarrow> Inl e
                | Inr token \<Rightarrow> Inr (Found_token token))
          else Inr (Default dflt))"

subsection \<open>serialize and load\<close>

abbreviation LF :: char where "LF \<equiv> CHR 0x0A"
abbreviation CR :: char where "CR \<equiv> CHR 0x0D"
abbreviation TAB :: char where "TAB \<equiv> CHR 0x09"

text \<open>The files: a path is a string and a file is its text.\<close>

type_synonym filesystem = "string \<rightharpoonup> string"

text \<open>
  Iterating over an open \<open>tf.io.gfile.GFile\<close> yields its lines, each ending with its
  line feed. The reader drops every carriage return it meets, wherever it stands in
  the line: \<open>a\r\n\<close> is read as \<open>a\n\<close> and \<open>a\rb\n\<close> as \<open>ab\n\<close>. What is
  left after the last line feed is yielded as a last line when it is not empty, and
  the iteration stops at the first empty read.
\<close>

fun lines_from :: "string \<Rightarrow> string \<Rightarrow> string list" where
  "lines_from cur [] = (if cur = [] then [] else [cur])"
| "lines_from cur (c # cs) =
     (if c = LF then (cur @ [c]) # lines_from [] cs
      else if c = CR then lines_from cur cs
      else lines_from (cur @ [c]) cs)"

definition file_lines :: "string \<Rightarrow> string list" where
  "file_lines content = lines_from [] content"

text \<open>\<open>s.rstrip(chars)\<close> drops every trailing character that is in \<open>chars\<close>.\<close>

definition rstrip :: "string \<Rightarrow> string \<Rightarrow> string" where
  "rstrip chars s = rev (dropWhile (\<lambda>c. c \<in> set chars) (rev s))"

text \<open>\<open>s.split(sep)\<close> for a separator of one character.\<close>

fun split_from :: "char \<Rightarrow> string \<Rightarrow> string \<Rightarrow> string list" where
  "split_from sep cur [] = [cur]"
| "split_from sep cur (c # cs) =
     (if c = sep then cur # split_from sep [] cs else split_from sep (cur @ [c]) cs)"

definition str_split :: "char \<Rightarrow> string \<Rightarrow> string list" where
  "str_split sep s = split_from sep [] s"


text \<open>
  A warning of the logger: the duplicate token, the path and the line number.
  \<open>load\<close> returns the vocabulary and the warnings it logged.
\<close>

type_synonym warning = "string \<times> string \<times> nat"

text \<open>The end of the loop body of \<open>load\<close>, from the duplicate test on.\<close>

definition load_token ::
    "string \<Rightarrow> nat \<Rightarrow> string \<Rightarrow> vocab \<times> warning list \<Rightarrow> vocab \<times> warning list" where
  "load_token path i token st =
     (case st of (v, warnings) \<Rightarrow>
        if token \<in> fmdom' (token_to_id v)
        then (v, warnings @ [(token, path, i + 1)])
        else (v\<lparr>token_to_id := fmupd token (length (id_to_token v)) (token_to_id v),
                id_to_token := id_to_token v @ [token],
                frequency := frequency v @ [1]\<rparr>, warnings))"

text \<open>
  The loop of \<open>load\<close> over \<open>enumerate(vocab)\<close>. In the sentencepiece format
  \<open>token, _ = token.split("\t")\<close> raises \<open>ValueError\<close> unless the line has exactly
  one tab.
\<close>

fun load_loop ::
    "string \<Rightarrow> string \<Rightarrow> nat \<Rightarrow> string list \<Rightarrow> vocab \<times> warning list \<Rightarrow>
     py_error + vocab \<times> warning list" where
  "load_loop path file_format i [] st = Inr st"
| "load_loop path file_format i (line # rest) st =
     (let token = rstrip [CR, LF] line in
      if file_format = ''sentencepiece''
      then (case str_split TAB token of
              [token, score] \<Rightarrow>
                if token \<in> set [''<unk>'', ''<s>'', ''</s>'']
                then load_loop path file_format (Suc i) rest st
                else load_loop path file_format (Suc i) rest (load_token path i token st)
            | _ \<Rightarrow> Inl ValueError)
      else load_loop path file_format (Suc i) rest (load_token path i token st))"

definition load ::
    "string \<Rightarrow> string \<Rightarrow> filesystem \<Rightarrow> vocab \<Rightarrow> py_error + vocab \<times> warning list" where
  "load path file_format fs v =
     (if file_format \<notin> set [''default'', ''sentencepiece''] then Inl ValueError
      else case fs path of
             None \<Rightarrow> Inl NotFoundError
           | Some content \<Rightarrow> load_loop path file_format 0 (file_lines content) (v, []))"

definition from_file ::
    "string \<Rightarrow> string \<Rightarrow> filesystem \<Rightarrow> py_error + vocab \<times> warning list" where
  "from_file path file_format fs = load path file_format fs (Vocab_init None)"

subsection \<open>pad_to_multiple\<close>

text \<open>\<open>"%d" % i\<close> for \<open>i \<ge> 0\<close>: the decimal digits of \<open>i\<close>.\<close>

fun dec :: "nat \<Rightarrow> string" where
  "dec n = (if n < 10 then [char_of (48 + n)]
            else dec (n div 10) @ [char_of (48 + n mod 10)])"

text \<open>Reading the digits back, to show that \<open>dec\<close> is injective.\<close>

definition undec :: "string \<Rightarrow> nat" where
  "undec s = foldl (\<lambda>a c. 10 * a + (of_char c - 48)) 0 s"

definition filler_token :: "nat \<Rightarrow> string" where
  "filler_token i = ''averyunlikelytoken'' @ dec i"

text \<open>
  The loop of \<open>pad_to_multiple\<close>, with its counter \<open>i\<close>. \<open>%\<close> raises
  \<open>ZeroDivisionError\<close> for a zero multiple; for any other multiple Python's \<open>%\<close> on
  integers is \<open>mod\<close>. The loop ends because the filler names are pairwise different
  and the dictionary is finite; the termination proof is with the properties below.
\<close>

function pad_loop :: "int \<Rightarrow> int \<Rightarrow> nat \<Rightarrow> vocab \<Rightarrow> py_error + vocab" where
  "pad_loop multiple num_oov_buckets i v =
     (if multiple = 0 then Inl ZeroDivisionError
      else if (int (size_vocab v) + num_oov_buckets) mod multiple \<noteq> 0
      then (case add (filler_token i) v of
              Inl e \<Rightarrow> Inl e
            | Inr v' \<Rightarrow> pad_loop multiple num_oov_buckets (Suc i) v')
      else Inr v)"
  by pat_completeness auto

definition pad_to_multiple :: "int \<Rightarrow> int \<Rightarrow> vocab \<Rightarrow> py_error + vocab" where
  "pad_to_multiple multiple num_oov_buckets v = pad_loop multiple num_oov_buckets 0 v"

text \<open>
  The class keeps the two lists in step: every operation appends to both. \<open>prune\<close>
  raises on a vocabulary whose frequency list is the shorter one.
\<close>

definition aligned :: "vocab \<Rightarrow> bool" where
  "aligned v \<longleftrightarrow> length (frequency v) = length (id_to_token v)"

text \<open>
  What every vocabulary built through the class satisfies: the lists are in step, the
  keys of the dictionary are the tokens of the list, and an id stored for a token is
  the position of that token. Special tokens given twice to \<open>__init__\<close> are allowed.
\<close>

definition consistent :: "vocab \<Rightarrow> bool" where
  "consistent v \<longleftrightarrow>
     aligned v \<and> fmdom' (token_to_id v) = set (id_to_token v) \<and>
     (\<forall>t i. fmlookup (token_to_id v) t = Some i \<longrightarrow>
        i < length (id_to_token v) \<and> id_to_token v ! i = t)"

subsection \<open>What load does with a file, stated without the loop\<close>

text \<open>
  The lines that reach the duplicate test of \<open>load\<close>, each with its index in the
  file and the token read from it. In the sentencepiece format the token is the first
  of the two fields, and the three reserved tokens never reach the test.
\<close>

fun tested_tokens :: "string \<Rightarrow> nat \<Rightarrow> string list \<Rightarrow> (nat \<times> string) list" where
  "tested_tokens file_format i [] = []"
| "tested_tokens file_format i (line # rest) =
     (if file_format = ''sentencepiece''
      then (case str_split TAB (rstrip [CR, LF] line) of
              [token, score] \<Rightarrow>
                if token \<in> set [''<unk>'', ''<s>'', ''</s>'']
                then tested_tokens file_format (Suc i) rest
                else (i, token) # tested_tokens file_format (Suc i) rest
            | _ \<Rightarrow> tested_tokens file_format (Suc i) rest)
      else (i, rstrip [CR, LF] line) # tested_tokens file_format (Suc i) rest)"

text \<open>Every line of a sentencepiece file has exactly one tab.\<close>

definition two_fields :: "string \<Rightarrow> string list \<Rightarrow> bool" where
  "two_fields file_format lines \<longleftrightarrow>
     (file_format = ''sentencepiece'' \<longrightarrow>
        (\<forall>line \<in> set lines. length (str_split TAB (rstrip [CR, LF] line)) = 2))"

text \<open>The tested lines whose token was seen before, in file order.\<close>

fun later_occurrences :: "string list \<Rightarrow> (nat \<times> string) list \<Rightarrow> (nat \<times> string) list" where
  "later_occurrences seen [] = []"
| "later_occurrences seen ((i, token) # rest) =
     (if token \<in> set seen then (i, token) # later_occurrences seen rest
      else later_occurrences (token # seen) rest)"

text \<open>The tokens in the order of their first occurrence.\<close>

definition first_occurrences :: "string list \<Rightarrow> string list" where
  "first_occurrences toks = rev (remdups (rev toks))"

subsection \<open>Vocabularies seeded with special tokens\<close>

text \<open>
  The special tokens sit at the front of the token list, in the order given, each with
  frequency infinity.
\<close>

definition special_prefix :: "string list \<Rightarrow> vocab \<Rightarrow> bool" where
  "special_prefix special_tokens v \<longleftrightarrow>
     aligned v \<and>
     take (length special_tokens) (id_to_token v) = special_tokens \<and>
     take (length special_tokens) (frequency v) = replicate (length special_tokens) \<infinity>"

text \<open>
  The vocabularies that \<open>Vocab(special_tokens)\<close> grows into under \<open>add\<close>,
  \<open>load\<close> and \<open>pad_to_multiple\<close>, the methods that change a vocabulary
  (\<open>add_from_text\<close> calls \<open>add\<close>).
\<close>

inductive built_from :: "string list \<Rightarrow> vocab \<Rightarrow> bool" for special_tokens where
  constructed: "built_from special_tokens (Vocab_init (Some special_tokens))"
| added: "built_from special_tokens v \<Longrightarrow> add token v = Inr v' \<Longrightarrow>
          built_from special_tokens v'"
| loaded: "built_from special_tokens v \<Longrightarrow> load path file_format fs v = Inr (v', warnings) \<Longrightarrow>
          built_from special_tokens v'"
| padded: "built_from special_tokens v \<Longrightarrow>
          pad_to_multiple multiple num_oov_buckets v = Inr v' \<Longrightarrow>
          built_from special_tokens v'"

section \<open>Unknown-token replacement (yimt/core/models/sequence_to_sequence.py)\<close>

text \<open>
  A tensor is a nested list, one level per axis; strings are string tensors and
  attention weights any linearly ordered values (a floating-point \<open>NaN\<close> is not
  modelled). The operations of the tensor library are modelled for the arguments the
  two functions pass: a shape that does not fit raises \<open>InvalidArgumentError\<close>.
\<close>

text \<open>Mapping a function that can raise over a list: the first error is the result.\<close>

fun map_result :: "('a \<Rightarrow> py_error + 'b) \<Rightarrow> 'a list \<Rightarrow> py_error + 'b list" where
  "map_result f [] = Inr []"
| "map_result f (x # xs) =
     (case f x of
        Inl e \<Rightarrow> Inl e
      | Inr y \<Rightarrow> (case map_result f xs of Inl e \<Rightarrow> Inl e | Inr ys \<Rightarrow> Inr (y # ys)))"

text \<open>
  \<open>tf.argmax(attention, axis=-1)\<close> on one row: the index of the first largest entry,
  and an error on an empty row. \<open>argmax_from best k i\<close> carries the best value so far
  and its index \<open>k\<close> while it looks at index \<open>i\<close>.
\<close>

fun argmax_from :: "'w::linorder \<Rightarrow> nat \<Rightarrow> nat \<Rightarrow> 'w list \<Rightarrow> nat" where
  "argmax_from best k i [] = k"
| "argmax_from best k i (x # xs) =
     (if best < x then argmax_from x i (Suc i) xs else argmax_from best k (Suc i) xs)"

definition tf_argmax :: "'w::linorder list \<Rightarrow> py_error + nat" where
  "tf_argmax xs =
     (case xs of
        [] \<Rightarrow> Inl InvalidArgumentError
      | x # rest \<Rightarrow> Inr (argmax_from x 0 1 rest))"

text \<open>
  \<open>tf.gather(tokens, alignment, axis=1, batch_dims=1)\<close>: in every batch element, the
  tokens at the given indices.
\<close>

definition tf_gather_row :: "'a list \<Rightarrow> nat list \<Rightarrow> py_error + 'a list" where
  "tf_gather_row params indices =
     map_result (\<lambda>i. if i < length params then Inr (params ! i) else Inl InvalidArgumentError)
       indices"

definition tf_gather_batch :: "'a list list \<Rightarrow> nat list list \<Rightarrow> py_error + 'a list list" where
  "tf_gather_batch params indices =
     (if length params \<noteq> length indices then Inl InvalidArgumentError
      else map_result (\<lambda>(p, ix). tf_gather_row p ix) (zip params indices))"

text \<open>\<open>tf.equal\<close> with a scalar and \<open>tf.where\<close> on three tensors of one shape.\<close>

definition tf_equal :: "'a list list \<Rightarrow> 'a \<Rightarrow> bool list list" where
  "tf_equal xs y = map (map (\<lambda>x. x = y)) xs"

definition tf_where_row :: "bool list \<Rightarrow> 'a list \<Rightarrow> 'a list \<Rightarrow> py_error + 'a list" where
  "tf_where_row c x y =
     (if length c = length x \<and> length x = length y
      then Inr (map (\<lambda>(c, x, y). if c then x else y) (zip c (zip x y)))
      else Inl InvalidArgumentError)"

definition tf_where ::
    "bool list list \<Rightarrow> 'a list list \<Rightarrow> 'a list list \<Rightarrow> py_error + 'a list list" where
  "tf_where c x y =
     (if length c = length x \<and> length x = length y
      then map_result (\<lambda>(c, x, y). tf_where_row c x y) (zip c (zip x y))
      else Inl InvalidArgumentError)"

definition align_tokens_from_attention ::
    "'a list list \<Rightarrow> 'w::linorder list list list \<Rightarrow> py_error + 'a list list" where
  "align_tokens_from_attention tokens attention =
     (case map_result (map_result tf_argmax) attention of
        Inl e \<Rightarrow> Inl e
      | Inr alignment \<Rightarrow> tf_gather_batch tokens alignment)"

definition replace_unknown_target ::
    "'a list list \<Rightarrow> 'a list list \<Rightarrow> 'w::linorder list list list \<Rightarrow> 'a \<Rightarrow>
     py_error + 'a list list" where
  "replace_unknown_target target_tokens source_tokens attention unknown_token =
     (case align_tokens_from_attention source_tokens attention of
        Inl e \<Rightarrow> Inl e
      | Inr aligned_source_tokens \<Rightarrow>
          tf_where (tf_equal target_tokens unknown_token) aligned_source_tokens target_tokens)"

text \<open>Shapes \<open>[b, t]\<close> and \<open>[b, t, s]\<close>, and the index \<open>tf.argmax\<close> returns on a row.\<close>

definition shape2 :: "nat \<Rightarrow> nat \<Rightarrow> 'a list list \<Rightarrow> bool" where
  "shape2 b t xs \<longleftrightarrow> length xs = b \<and> (\<forall>row \<in> set xs. length row = t)"

definition shape3 :: "nat \<Rightarrow> nat \<Rightarrow> nat \<Rightarrow> 'a list list list \<Rightarrow> bool" where
  "shape3 b t s xs \<longleftrightarrow> length xs = b \<and> (\<forall>m \<in> set xs. shape2 t s m)"

definition argmax_index :: "'w::linorder list \<Rightarrow> nat" where
  "argmax_index xs = argmax_from (hd xs) 0 1 (tl xs)"

section \<open>Dynamic decoding (SequenceToSequence._dynamic_decode)\<close>

text \<open>
  A value of the \<open>predictions\<close> dictionary: a tensor whose first two axes are the
  batch and the hypotheses of one input, best first as the decoder returns them.
\<close>

datatype ('tok, 'f) prediction =
    Log_probs "'f list list"
  | Detokenized "string list list"
  | Tokens "'tok list list list"
  | Length "nat list list"
  | Alignment "'f list list list list"

text \<open>\<open>value[:, :n]\<close> for \<open>n > 0\<close>: the first \<open>n\<close> hypotheses of every input.\<close>

fun slice_hypotheses :: "nat \<Rightarrow> ('tok, 'f) prediction \<Rightarrow> ('tok, 'f) prediction" where
  "slice_hypotheses n (Log_probs x) = Log_probs (map (take n) x)"
| "slice_hypotheses n (Detokenized x) = Detokenized (map (take n) x)"
| "slice_hypotheses n (Tokens x) = Tokens (map (take n) x)"
| "slice_hypotheses n (Length x) = Length (map (take n) x)"
| "slice_hypotheses n (Alignment x) = Alignment (map (take n) x)"


text \<open>
  The entries of \<open>self.params\<close> that the end of \<open>_dynamic_decode\<close> reads: \<open>None\<close>
  is an absent key, for which \<open>params.get\<close> gives the default.
\<close>

text \<open>
  The value of the \<open>decoding_noise\<close> entry: a list of noise modules, or a value that
  is not a list, of which only the truth value matters here. \<open>if decoding_noise:\<close>
  tests the truth value of the entry: an absent entry (\<open>None\<close>), an empty list and
  a false value that is not a list (\<open>False\<close>, \<open>0\<close>, an empty dictionary) all skip the
  noise.
\<close>

datatype 'n noise_setting = Modules "'n list" | Not_a_list bool

fun truthy :: "'n noise_setting \<Rightarrow> bool" where
  "truthy (Modules modules) = (modules \<noteq> [])"
| "truthy (Not_a_list b) = b"

record 'n decode_params =
  beam_width :: "int option"
  replace_unknown_target_param :: "bool option"
  decoding_noise :: "'n noise_setting option"
  num_hypotheses :: "int option"

text \<open>
  What \<open>self.decoder.dynamic_decode\<close> returned, the sampled ids already looked up
  in the id-to-token table (in the lite mode they stay ids).
\<close>

record ('tok, 'f) decoder_output =
  sampled_tokens :: "'tok list list list"
  sampled_length :: "nat list list"
  log_probs :: "'f list list"
  alignment :: "'f list list list list option"

text \<open>
  The model's flags and the computations \<open>_dynamic_decode\<close> hands to other modules,
  taken as parameters: the tensor arithmetic of the unknown-token replacement for the
  features at hand, the noise modules of \<open>yimt.core.data.noise\<close> that \<open>_add_noise\<close>
  builds and applies (\<open>word_noiser\<close>: the loop over the modules, which raises
  \<open>ValueError\<close> for an invalid noise type, and the call of the \<open>WordNoiser\<close>), the
  tokenizer's \<open>detokenize\<close> and the reshaping of the lite mode's output.
\<close>

record ('tok, 'f, 'n, 'l) collaborators =
  tflite_mode :: bool
  source_is_word_embedder :: bool
  tokenizer_in_graph :: bool
  replace_unknown ::
    "'tok list list list \<Rightarrow> 'f list list list list \<Rightarrow> py_error + 'tok list list list"
  word_noiser ::
    "'n list \<Rightarrow> 'tok list list list \<Rightarrow> nat list list \<Rightarrow>
     py_error + 'tok list list list \<times> nat list list"
  detokenize :: "'tok list list list \<Rightarrow> nat list list \<Rightarrow> string list list"
  lite_output :: "int \<Rightarrow> 'tok list list list \<Rightarrow> 'l"

text \<open>
  \<open>_add_noise\<close> raises \<open>ValueError\<close> when its parameters are not a list and
  otherwise builds the noise modules and applies them.
\<close>

definition add_noise ::
    "('tok, 'f, 'n, 'l) collaborators \<Rightarrow> 'tok list list list \<Rightarrow> nat list list \<Rightarrow>
     'n noise_setting \<Rightarrow> py_error + 'tok list list list \<times> nat list list" where
  "add_noise env tokens lengths params =
     (case params of
        Not_a_list b \<Rightarrow> Inl ValueError
      | Modules modules \<Rightarrow> word_noiser env modules tokens lengths)"

datatype ('tok, 'f, 'l) decoded =
    Lite 'l
  | Predictions "(string \<times> ('tok, 'f) prediction) list"

text \<open>
  \<open>_dynamic_decode\<close> after the decoder has run, up to the \<open>predictions\<close>
  dictionary: the two \<open>TypeError\<close>s of the unknown-token replacement, the early
  return of the lite mode, the noise and the dictionary, an association list in
  insertion order. The noise is added, and the alignment dropped, only when the
  \<open>decoding_noise\<close> entry is true; otherwise \<open>_add_noise\<close> is not called and the
  alignment stays.
\<close>

definition decode_predictions ::
    "('tok, 'f, 'n, 'l) collaborators \<Rightarrow> 'n decode_params \<Rightarrow> ('tok, 'f) decoder_output \<Rightarrow>
     py_error + ('tok, 'f, 'l) decoded" where
  "decode_predictions env params out =
     (let beam_size = (case beam_width params of None \<Rightarrow> 1 | Some k \<Rightarrow> k) in
      case (if replace_unknown_target_param params = Some True
            then (case alignment out of
                    None \<Rightarrow> Inl TypeError
                  | Some al \<Rightarrow>
                      if \<not> source_is_word_embedder env then Inl TypeError
                      else replace_unknown env (sampled_tokens out) al)
            else Inr (sampled_tokens out)) of
        Inl e \<Rightarrow> Inl e
      | Inr target_tokens \<Rightarrow>
          if tflite_mode env then Inr (Lite (lite_output env beam_size target_tokens))
          else
            case (case decoding_noise params of
                    None \<Rightarrow> Inr (target_tokens, sampled_length out, alignment out)
                  | Some noise \<Rightarrow>
                      if truthy noise
                      then (case add_noise env target_tokens (sampled_length out) noise of
                              Inl e \<Rightarrow> Inl e
                            | Inr (noisy_tokens, noisy_length) \<Rightarrow>
                                Inr (noisy_tokens, noisy_length, None))
                      else Inr (target_tokens, sampled_length out, alignment out)) of
              Inl e \<Rightarrow> Inl e
            | Inr (target_tokens, lengths, al) \<Rightarrow>
                Inr (Predictions
                  ((''log_probs'', Log_probs (log_probs out)) #
                   (if tokenizer_in_graph env
                    then [(''text'', Detokenized (detokenize env target_tokens lengths))]
                    else [(''tokens'', Tokens target_tokens), (''length'', Length lengths)] @
                         (case al of None \<Rightarrow> [] | Some a \<Rightarrow> [(''alignment'', Alignment a)])))))"

text \<open>The last step of \<open>_dynamic_decode\<close>: the restriction to \<open>num_hypotheses\<close>.\<close>

definition dynamic_decode ::
    "('tok, 'f, 'n, 'l) collaborators \<Rightarrow> 'n decode_params \<Rightarrow> ('tok, 'f) decoder_output \<Rightarrow>
     py_error + ('tok, 'f, 'l) decoded" where
  "dynamic_decode env params out =
     (case decode_predictions env params out of
        Inl e \<Rightarrow> Inl e
      | Inr (Lite ids) \<Rightarrow> Inr (Lite ids)
      | Inr (Predictions predictions) \<Rightarrow>
          let beam_size = (case beam_width params of None \<Rightarrow> 1 | Some k \<Rightarrow> k);
              n = (case num_hypotheses params of None \<Rightarrow> 1 | Some k \<Rightarrow> k)
          in if n > 0
             then if n > beam_size then Inl ValueError
                  else Inr (Predictions
                         (map (\<lambda>(key, value). (key, slice_hypotheses (nat n) value)) predictions))
             else Inr (Predictions predictions))"


section \<open>Loss selection (SequenceToSequence.compute_loss)\<close>

text \<open>
  The \<open>outputs\<close> argument is a dictionary or, when it is not one, the logits alone.
  \<open>None\<close> in a field is an absent key. Losses and their parameters are real numbers.
\<close>

record ('lg, 'f) outputs_bundle =
  out_logits :: "'lg option"
  out_noisy_logits :: "'lg option"
  out_attention :: "'f list list list option"

datatype ('lg, 'f) outputs = Bare 'lg | Bundle "('lg, 'f) outputs_bundle"

record ('ids, 'len, 'w, 'al) labels =
  label_ids_out :: "'ids option"
  label_length :: "'len option"
  label_noisy_ids_out :: "'ids option"
  label_noisy_length :: "'len option"
  label_weight :: "'w option"
  label_alignment :: "'al option"

record 'g loss_params =
  contrastive_learning :: "bool option"
  max_margin_eta :: "real option"
  label_smoothing :: "real option"
  average_loss_in_time :: "bool option"
  mask_loss_outliers :: "bool option"
  guided_alignment_type :: "'g option"
  guided_alignment_weight :: "real option"

text \<open>
  The functions of \<open>yimt.core.utils.losses\<close> and the length of the labels without
  special tokens (\<open>labels_inputter.get_length\<close>), taken as parameters: their code is
  not part of the model.
\<close>

record ('lg, 'ids, 'len, 'w, 'al, 'f, 'g, 'm) loss_functions =
  max_margin_loss :: "'lg \<Rightarrow> 'ids \<Rightarrow> 'len \<Rightarrow> 'lg \<Rightarrow> 'ids \<Rightarrow> 'len \<Rightarrow> real \<Rightarrow> 'm"
  cross_entropy_sequence_loss ::
    "'lg \<Rightarrow> 'ids \<Rightarrow> 'len \<Rightarrow> 'w option \<Rightarrow> real \<Rightarrow> bool \<Rightarrow> bool \<Rightarrow> bool \<Rightarrow> real \<times> real \<times> real"
  guided_alignment_cost :: "'f list list list \<Rightarrow> 'al \<Rightarrow> 'len \<Rightarrow> 'g \<Rightarrow> real \<Rightarrow> real"
  get_length :: "('ids, 'len, 'w, 'al) labels \<Rightarrow> 'len"

datatype 'm loss_value = Max_margin 'm | Cross_entropy real real real

text \<open>\<open>params.get(key, default)\<close>.\<close>

definition get_or :: "'a option \<Rightarrow> 'a \<Rightarrow> 'a" where
  "get_or v d = (case v of None \<Rightarrow> d | Some x \<Rightarrow> x)"

definition no_attention_warning :: string where
  "no_attention_warning =
     ''This model did not return attention vectors; guided alignment will not be applied''"

text \<open>
  \<open>compute_loss\<close> returns the loss and the warnings it logged. The max-margin branch
  is taken when \<open>noisy_logits is not None and params.get("contrastive_learning")\<close>;
  \<open>outputs["logits"]\<close> and \<open>labels[...]\<close> raise \<open>KeyError\<close> on an absent key, and
  \<open>attention[:, :-1]\<close> drops the last timestep of every batch element.
\<close>

definition compute_loss ::
    "('lg, 'ids, 'len, 'w, 'al, 'f, 'g, 'm) loss_functions \<Rightarrow> 'g loss_params \<Rightarrow>
     ('lg, 'f) outputs \<Rightarrow> ('ids, 'len, 'w, 'al) labels \<Rightarrow> bool \<Rightarrow>
     py_error + 'm loss_value \<times> string list" where
  "compute_loss losses params outputs labels training =
     (let outputs = (case outputs of
                       Bare lg \<Rightarrow> \<lparr>out_logits = Some lg, out_noisy_logits = None,
                                   out_attention = None\<rparr>
                     | Bundle b \<Rightarrow> b)
      in case out_logits outputs of
           None \<Rightarrow> Inl KeyError
         | Some logits \<Rightarrow>
             (case (if contrastive_learning params = Some True then out_noisy_logits outputs
                    else None) of
                Some noisy_logits \<Rightarrow>
                  (case (label_ids_out labels, label_length labels,
                         label_noisy_ids_out labels, label_noisy_length labels) of
                     (Some ids, Some len, Some noisy_ids, Some noisy_len) \<Rightarrow>
                       Inr (Max_margin
                              (max_margin_loss losses logits ids len noisy_logits noisy_ids
                                 noisy_len (get_or (max_margin_eta params) (1 / 10))), [])
                   | _ \<Rightarrow> Inl KeyError)
              | None \<Rightarrow>
                  (case (label_ids_out labels, label_length labels) of
                     (Some ids, Some len) \<Rightarrow>
                       (case cross_entropy_sequence_loss losses logits ids len
                               (label_weight labels)
                               (get_or (label_smoothing params) 0)
                               (get_or (average_loss_in_time params) False)
                               (get_or (mask_loss_outliers params) False)
                               training of
                          (loss, loss_normalizer, loss_token_normalizer) \<Rightarrow>
                            if training
                            then (case (label_alignment labels, guided_alignment_type params) of
                                    (Some gold_alignments, Some guided_type) \<Rightarrow>
                                      (case out_attention outputs of
                                         None \<Rightarrow>
                                           Inr (Cross_entropy loss loss_normalizer
                                                  loss_token_normalizer,
                                                [no_attention_warning])
                                       | Some attention \<Rightarrow>
                                           Inr (Cross_entropy
                                                  (loss +
                                                   guided_alignment_cost losses
                                                     (map butlast attention) gold_alignments
                                                     (get_length losses labels) guided_type
                                                     (get_or (guided_alignment_weight params) 1))
                                                  loss_normalizer loss_token_normalizer, []))
                                  | _ \<Rightarrow>
                                      Inr (Cross_entropy loss loss_normalizer
                                             loss_token_normalizer, []))
                            else Inr (Cross_entropy loss loss_normalizer
                                        loss_token_normalizer, []))
                   | _ \<Rightarrow> Inl KeyError)))"

subsection \<open>What compute_loss adds to the cross-entropy loss\<close>

text \<open>The dictionary \<open>compute_loss\<close> works on.\<close>

definition bundle_of :: "('lg, 'f) outputs \<Rightarrow> ('lg, 'f) outputs_bundle" where
  "bundle_of outputs =
     (case outputs of
        Bare lg \<Rightarrow> \<lparr>out_logits = Some lg, out_noisy_logits = None, out_attention = None\<rparr>
      | Bundle b \<Rightarrow> b)"

text \<open>
  The guided-alignment cost, added when training with gold alignments, a guided
  alignment type and attention all present, and the warning logged when only the
  attention is missing.
\<close>

definition guided_term ::
    "('lg, 'ids, 'len, 'w, 'al, 'f, 'g, 'm) loss_functions \<Rightarrow> 'g loss_params \<Rightarrow>
     ('lg, 'f) outputs_bundle \<Rightarrow> ('ids, 'len, 'w, 'al) labels \<Rightarrow> bool \<Rightarrow> real" where
  "guided_term losses params b labels training =
     (case (training, label_alignment labels, guided_alignment_type params, out_attention b) of
        (True, Some gold_alignments, Some guided_type, Some attention) \<Rightarrow>
          guided_alignment_cost losses (map butlast attention) gold_alignments
            (get_length losses labels) guided_type (get_or (guided_alignment_weight params) 1)
      | _ \<Rightarrow> 0)"

definition guided_warnings ::
    "'g loss_params \<Rightarrow> ('lg, 'f) outputs_bundle \<Rightarrow> ('ids, 'len, 'w, 'al) labels \<Rightarrow> bool \<Rightarrow>
     string list" where
  "guided_warnings params b labels training =
     (case (training, label_alignment labels, guided_alignment_type params, out_attention b) of
        (True, Some gold_alignments, Some guided_type, None) \<Rightarrow> [no_attention_warning]
      | _ \<Rightarrow> [])"

section \<open>Properties of the stable descending sort\<close>

lemma length_insort_desc [simp]: "length (insort_desc key x ys) = Suc (length ys)"
  by (induction ys) auto

lemma length_sorted_desc [simp]: "length (sorted_desc key xs) = length xs"
  by (induction xs) (auto simp: sorted_desc_def)

lemma sorted_desc_Cons: "sorted_desc key (x # xs) = insort_desc key x (sorted_desc key xs)"
  by (simp add: sorted_desc_def)

lemma sorted_desc_Nil [simp]: "sorted_desc key [] = []"
  by (simp add: sorted_desc_def)

lemma set_insort_desc [simp]: "set (insort_desc key x ys) = insert x (set ys)"
  by (induction ys) auto

lemma set_sorted_desc [simp]: "set (sorted_desc key xs) = set xs"
  by (induction xs) (auto simp: sorted_desc_Cons)

lemma mset_insort_desc: "mset (insort_desc key x ys) = add_mset x (mset ys)"
  by (induction ys) auto

lemma mset_sorted_desc: "mset (sorted_desc key xs) = mset xs"
  by (induction xs) (auto simp: sorted_desc_Cons mset_insort_desc)

lemma descending_insort_desc:
  "sorted_wrt (\<lambda>a b. key b \<le> key a) ys \<Longrightarrow> sorted_wrt (\<lambda>a b. key b \<le> key a) (insort_desc key x ys)"
  by (induction ys) (auto intro: order_trans)

lemma descending_sorted_desc: "sorted_wrt (\<lambda>a b. key b \<le> key a) (sorted_desc key xs)"
  by (induction xs) (auto simp: sorted_desc_Cons descending_insort_desc)

lemma filter_insort_desc_other:
  "key x \<noteq> k \<Longrightarrow> filter (\<lambda>y. key y = k) (insort_desc key x ys) = filter (\<lambda>y. key y = k) ys"
  by (induction ys) auto

lemma filter_insort_desc_same:
  "sorted_wrt (\<lambda>a b. key b \<le> key a) ys \<Longrightarrow>
   filter (\<lambda>y. key y = key x) (insort_desc key x ys) = x # filter (\<lambda>y. key y = key x) ys"
  by (induction ys) (auto simp: filter_empty_conv)

lemma stable_sorted_desc:
  "filter (\<lambda>y. key y = k) (sorted_desc key xs) = filter (\<lambda>y. key y = k) xs"
proof (induction xs)
  case Nil
  show ?case by simp
next
  case (Cons x xs)
  show ?case
  proof (cases "key x = k")
    case True
    then show ?thesis
      using Cons filter_insort_desc_same [OF descending_sorted_desc, of key x xs]
      by (simp add: sorted_desc_Cons)
  next
    case False
    then show ?thesis
      using Cons by (simp add: sorted_desc_Cons filter_insort_desc_other)
  qed
qed

lemma insort_desc_top:
  "\<forall>y \<in> set ys. key y \<le> key x \<Longrightarrow> insort_desc key x ys = x # ys"
  by (cases ys) auto

lemma sorted_desc_top_prefix:
  "\<forall>x \<in> set ps. \<forall>y \<in> set ps \<union> set rest. key y \<le> key x \<Longrightarrow>
   sorted_desc key (ps @ rest) = ps @ sorted_desc key rest"
proof (induction ps)
  case Nil
  show ?case by simp
next
  case (Cons p ps)
  then have "sorted_desc key (ps @ rest) = ps @ sorted_desc key rest"
    by auto
  moreover have "\<forall>y \<in> set (ps @ sorted_desc key rest). key y \<le> key p"
    using Cons.prems by auto
  ultimately show ?case
    by (simp add: sorted_desc_Cons insort_desc_top)
qed

section \<open>Properties of prune\<close>

lemma discard_scan_le: "discard_scan f m s i n \<le> n"
proof (induction i arbitrary: n)
  case 0
  show ?case by simp
next
  case (Suc i)
  have "discard_scan f m s i (n - 1) \<le> n - 1"
    by (rule Suc.IH)
  then show ?case by auto
qed

lemma discard_scan_pos: "0 < n \<Longrightarrow> 0 < discard_scan f m s i (i + n)"
  by (induction i arbitrary: n) auto

lemma discard_scan_keeps:
  "j \<le> i \<Longrightarrow> \<not> f ! (s ! j) < m \<Longrightarrow> j < discard_scan f m s i (Suc i)"
proof (induction i)
  case 0
  then show ?case by simp
next
  case (Suc i)
  then show ?case
    by (cases "j = Suc i") auto
qed

lemma discard_scan_removed:
  "discard_scan f m s i (Suc i) \<le> j \<Longrightarrow> j \<le> i \<Longrightarrow> f ! (s ! j) < m"
  using discard_scan_keeps [of j i f s m] by auto

lemma id_to_token_fill_loop:
  "id_to_token (fill_loop v s is nv) = id_to_token nv @ map (\<lambda>i. id_to_token v ! (s ! i)) is"
  by (induction "is" arbitrary: nv) (auto simp: Let_def)

lemma frequency_fill_loop:
  "frequency (fill_loop v s is nv) = frequency nv @ map (\<lambda>i. frequency v ! (s ! i)) is"
  by (induction "is" arbitrary: nv) (auto simp: Let_def)

lemma sorted_desc_hd_max:
  assumes "x \<in> set xs"
  shows "key x \<le> key (hd (sorted_desc key xs))"
proof -
  let ?s = "sorted_desc key xs"
  from assms have ne: "?s \<noteq> []" by (metis empty_iff empty_set set_sorted_desc)
  then obtain y ys where s: "?s = y # ys" by (cases ?s) auto
  have "x \<in> set ?s" using assms by simp
  moreover have "sorted_wrt (\<lambda>a b. key b \<le> key a) (y # ys)"
    using descending_sorted_desc [of key xs] s by simp
  ultimately show ?thesis using s by auto
qed

text \<open>
  Claim C10. On a non-empty vocabulary, with \<open>max_size\<close> equal to 0 or at least 1
  and any \<open>min_frequency\<close>, \<open>prune\<close> returns a non-empty vocabulary: the scan for
  entries below the threshold stops above index 0 of the sorted order, so the first
  entry of the stable frequency-descending order, which has the highest frequency, is
  kept whatever its frequency is. The witness prunes frequencies 1 and 3 at threshold
  5 and keeps the entry of frequency 3.
\<close>

theorem prune_keeps_top_entry:
  assumes "0 < size_vocab v" and "aligned v" and "max_size = 0 \<or> 1 \<le> max_size"
  shows "\<exists>p. prune max_size min_frequency v = Inr p \<and> 0 < size_vocab p \<and>
           id_to_token p ! 0 =
             id_to_token v ! hd (sorted_desc (\<lambda>k. frequency v ! k) [0..<size_vocab v]) \<and>
           frequency p ! 0 =
             frequency v ! hd (sorted_desc (\<lambda>k. frequency v ! k) [0..<size_vocab v]) \<and>
           (\<forall>k < size_vocab v. frequency v ! k \<le> frequency p ! 0)"
proof -
  let ?s = "sorted_desc (\<lambda>k. frequency v ! k) [0..<size_vocab v]"
  let ?n = "discard_scan (frequency v) min_frequency ?s (size_vocab v - 1) (size_vocab v)"
  let ?c = "if max_size > 0 then min ?n (nat max_size) else ?n"
  let ?p = "fill_loop v ?s [0..<?c] empty_vocab"
  have run: "prune max_size min_frequency v = Inr ?p"
    using assms(2) by (simp add: prune_def aligned_def size_vocab_def Let_def)
  have "0 < ?n"
    using discard_scan_pos [of 1 "frequency v" min_frequency ?s "size_vocab v - 1"] assms(1)
    by simp
  then have c: "0 < ?c"
    using assms(3) by auto
  then have upt: "[0..<?c] = 0 # [1..<?c]"
    by (simp add: upt_conv_Cons)
  have "length ?s \<noteq> 0" using assms(1) by simp
  then have "?s \<noteq> []" by (metis list.size(3))
  then have s0: "?s ! 0 = hd ?s"
    by (simp add: hd_conv_nth)
  have tok: "id_to_token ?p ! 0 = id_to_token v ! hd ?s"
    by (simp only: id_to_token_fill_loop upt) (simp add: empty_vocab_def s0)
  have frq: "frequency ?p ! 0 = frequency v ! hd ?s"
    by (simp only: frequency_fill_loop upt) (simp add: empty_vocab_def s0)
  have sz: "0 < size_vocab ?p"
    using c by (simp add: size_vocab_def id_to_token_fill_loop)
  have top: "\<forall>k < size_vocab v. frequency v ! k \<le> frequency ?p ! 0"
    using sorted_desc_hd_max [of _ "[0..<size_vocab v]" "\<lambda>k. frequency v ! k"] frq by simp
  show ?thesis
    using run sz tok frq top by blast
qed

theorem prune_keeps_top_entry_witness:
  "\<exists>p. prune 0 5 \<lparr>token_to_id = fmupd ''b'' 1 (fmupd ''a'' 0 fmempty),
                     id_to_token = [''a'', ''b''], frequency = [1, 3]\<rparr> = Inr p \<and>
       id_to_token p = [''b''] \<and> frequency p = [3] \<and> (3::enat) < 5"
proof -
  let ?v = "\<lparr>token_to_id = fmupd ''b'' 1 (fmupd ''a'' 0 fmempty),
             id_to_token = [''a'', ''b''], frequency = [1::enat, 3]\<rparr>"
  have h1: "0 < size_vocab ?v" by (simp add: size_vocab_def)
  have h2: "aligned ?v" by (simp add: aligned_def)
  have h3: "(0::int) = 0 \<or> 1 \<le> (0::int)" by simp
  have ev: "prune 0 5 ?v = Inr \<lparr>token_to_id = fmupd ''b'' 0 fmempty,
                     id_to_token = [''b''], frequency = [3]\<rparr>"
    by (simp add: prune_def size_vocab_def sorted_desc_def upt_rec Let_def empty_vocab_def)
  from prune_keeps_top_entry [OF h1 h2 h3, of 5] ev show ?thesis
    by simp
qed

section \<open>Properties of lookup\<close>

lemma lookup_text:
  "lookup (Text s) d v =
     Inr (case fmlookup (token_to_id v) s of None \<Rightarrow> Default d | Some i \<Rightarrow> Found_id i)"
  by (simp add: lookup_def split: option.splits)

lemma lookup_index_in_range:
  "0 \<le> i \<Longrightarrow> i < int (size_vocab v) \<Longrightarrow>
   lookup (Index i) d v = Inr (Found_token (id_to_token v ! nat i))"
  by (simp add: lookup_def py_getitem_def size_vocab_def)

lemma lookup_index_too_large:
  "int (size_vocab v) \<le> i \<Longrightarrow> lookup (Index i) d v = Inr (Default d)"
  by (simp add: lookup_def)

text \<open>
  Claim C4 says that an integer outside \<open>0 \<le> id < size\<close> gives the default and that
  \<open>lookup\<close> never raises. The code tests the upper bound only: on a vocabulary of two
  tokens, \<open>lookup(-1)\<close> returns the last token and \<open>lookup(-3)\<close> raises
  \<open>IndexError\<close>. The three lemmas above are the part of the claim that holds.
\<close>

theorem lookup_negative_index:
  "lookup (Index (- 1)) ''none'' (Vocab_init (Some [''a'', ''b''])) = Inr (Found_token ''b'') \<and>
   lookup (Index (- 3)) ''none'' (Vocab_init (Some [''a'', ''b''])) = Inl IndexError"
  by (simp add: lookup_def py_getitem_def size_vocab_def Vocab_init_def empty_vocab_def
      list_insert_def)

section \<open>Properties of prune at the threshold\<close>

text \<open>
  Claim C2 says that \<open>prune\<close> keeps exactly the entries whose frequency is at least
  \<open>min_frequency\<close>. The scan never tests the first entry of the sorted order: a
  vocabulary whose only token was added once is returned unchanged by
  \<open>prune(0, 2)\<close>, although its frequency 1 is below 2.
\<close>

theorem prune_keeps_entry_below_min_frequency:
  "add ''a'' (Vocab_init None) =
     Inr \<lparr>token_to_id = fmupd ''a'' 0 fmempty, id_to_token = [''a''], frequency = [1]\<rparr> \<and>
   prune 0 2 \<lparr>token_to_id = fmupd ''a'' 0 fmempty, id_to_token = [''a''], frequency = [1]\<rparr> =
     Inr \<lparr>token_to_id = fmupd ''a'' 0 fmempty, id_to_token = [''a''], frequency = [1]\<rparr> \<and>
   (1::enat) < 2"
  by (simp add: add_def Vocab_init_def empty_vocab_def size_vocab_def prune_def sorted_desc_def
      Let_def)

section \<open>Properties of serialize and load\<close>









section \<open>Properties of load on duplicates\<close>

lemma length2E: "length xs = 2 \<Longrightarrow> \<exists>a b. xs = [a, b]"
  by (cases xs; cases "tl xs") auto

lemma load_loop_fold:
  "two_fields file_format lines \<Longrightarrow>
   load_loop path file_format i lines st =
     Inr (foldl (\<lambda>st (k, token). load_token path k token st) st
            (tested_tokens file_format i lines))"
proof (induction lines arbitrary: i st)
  case Nil
  show ?case by simp
next
  case (Cons line lines)
  have rest: "two_fields file_format lines"
    using Cons.prems by (simp add: two_fields_def)
  show ?case
  proof (cases "file_format = ''sentencepiece''")
    case True
    then obtain a b where "str_split TAB (rstrip [CR, LF] line) = [a, b]"
      using Cons.prems length2E by (fastforce simp: two_fields_def)
    then show ?thesis
      using True Cons.IH [OF rest] by (simp add: Let_def)
  next
    case False
    then show ?thesis
      using Cons.IH [OF rest] by (simp add: Let_def)
  qed
qed

lemma tested_tokens_default:
  "file_format \<noteq> ''sentencepiece'' \<Longrightarrow>
   tested_tokens file_format i lines = zip [i..<i + length lines] (map (rstrip [CR, LF]) lines)"
proof (induction lines arbitrary: i)
  case Nil
  show ?case by simp
next
  case (Cons line lines)
  then show ?case by (simp add: upt_conv_Cons del: upt_Suc)
qed

lemma remdups_snoc: "remdups (xs @ [t]) = filter (\<lambda>x. x \<noteq> t) (remdups xs) @ [t]"
  by (induction xs) auto

lemma first_occurrences_Cons:
  "first_occurrences (t # ts) = t # filter (\<lambda>x. x \<noteq> t) (first_occurrences ts)"
  by (simp add: first_occurrences_def remdups_snoc rev_filter)

lemma consistent_empty: "consistent empty_vocab"
  by (simp add: consistent_def aligned_def empty_vocab_def)

lemma load_token_consistent:
  assumes "consistent v" and "load_token path i token (v, w) = (v', w')"
  shows "consistent v'"
proof (cases "token \<in> fmdom' (token_to_id v)")
  case True
  then show ?thesis using assms by (simp add: load_token_def)
next
  case False
  then have v': "v' = v\<lparr>token_to_id := fmupd token (length (id_to_token v)) (token_to_id v),
                id_to_token := id_to_token v @ [token],
                frequency := frequency v @ [1]\<rparr>"
    using assms(2) by (simp add: load_token_def)
  have old: "\<And>t k. fmlookup (token_to_id v) t = Some k \<Longrightarrow>
      k < length (id_to_token v) \<and> id_to_token v ! k = t"
    using assms(1) by (simp add: consistent_def)
  have "aligned v'"
    using assms(1) by (simp add: v' consistent_def aligned_def)
  moreover have "fmdom' (token_to_id v') = set (id_to_token v')"
    using assms(1) by (simp add: v' consistent_def)
  moreover have "fmlookup (token_to_id v') t = Some k \<Longrightarrow>
      k < length (id_to_token v') \<and> id_to_token v' ! k = t" for t k
    using old [of t k] by (cases "t = token") (auto simp: v' nth_append)
  ultimately show ?thesis
    unfolding consistent_def by blast
qed

lemma later_occurrences_nth:
  "later_occurrences seen pairs =
     map (\<lambda>j. pairs ! j)
       (filter (\<lambda>j. snd (pairs ! j) \<in> set seen \<union> set (take j (map snd pairs)))
          [0..<length pairs])"
proof (induction pairs arbitrary: seen)
  case Nil
  show ?case by simp
next
  case (Cons p pairs)
  obtain i token where p: "p = (i, token)" by (cases p)
  have upt: "[0..<length (p # pairs)] = 0 # map Suc [0..<length pairs]"
    by (simp add: upt_conv_Cons map_Suc_upt del: upt_Suc)
  show ?case
  proof (cases "token \<in> set seen")
    case True
    then have "(x \<in> set seen \<or> x = token \<or> x \<in> A) = (x \<in> set seen \<or> x \<in> A)" for x A
      by auto
    then show ?thesis
      unfolding upt using True Cons.IH [of seen]
      by (simp add: p filter_map comp_def)
  next
    case False
    have "(x = token \<or> x \<in> set seen \<or> x \<in> A) = (x \<in> set seen \<or> x = token \<or> x \<in> A)" for x A
      by auto
    then show ?thesis
      unfolding upt using False Cons.IH [of "token # seen"]
      by (simp add: p filter_map comp_def)
  qed
qed

lemma load_tokens_fold:
  assumes "fmdom' (token_to_id v) = set seen"
  shows "\<exists>v'. foldl (\<lambda>st (k, token). load_token path k token st) (v, w) pairs =
            (v', w @ map (\<lambda>(k, token). (token, path, k + 1)) (later_occurrences seen pairs)) \<and>
          id_to_token v' =
            id_to_token v @ filter (\<lambda>t. t \<notin> set seen) (first_occurrences (map snd pairs)) \<and>
          (consistent v \<longrightarrow> consistent v')"
  using assms
proof (induction pairs arbitrary: v w seen)
  case Nil
  show ?case by (simp add: first_occurrences_def)
next
  case (Cons p pairs)
  obtain k token where p: "p = (k, token)" by (cases p)
  let ?ts = "first_occurrences (map snd pairs)"
  show ?case
  proof (cases "token \<in> set seen")
    case True
    then have step: "load_token path k token (v, w) = (v, w @ [(token, path, k + 1)])"
      using Cons.prems by (simp add: load_token_def)
    have "filter (\<lambda>t. t \<notin> set seen) (filter (\<lambda>x. x \<noteq> token) ?ts) =
          filter (\<lambda>t. t \<notin> set seen) ?ts"
      using True by (auto intro: filter_cong)
    then show ?thesis
      using Cons.IH [OF Cons.prems, of "w @ [(token, path, k + 1)]"] True step
      by (simp add: p first_occurrences_Cons)
  next
    case False
    let ?v = "v\<lparr>token_to_id := fmupd token (length (id_to_token v)) (token_to_id v),
                id_to_token := id_to_token v @ [token],
                frequency := frequency v @ [1]\<rparr>"
    have step: "load_token path k token (v, w) = (?v, w)"
      using False Cons.prems by (simp add: load_token_def)
    have dom: "fmdom' (token_to_id ?v) = set (token # seen)"
      using Cons.prems by simp
    have keep: "consistent v \<Longrightarrow> consistent ?v"
      using load_token_consistent [OF _ step] .
    have "filter (\<lambda>t. t \<notin> set seen) (filter (\<lambda>x. x \<noteq> token) ?ts) =
          filter (\<lambda>t. t \<notin> set (token # seen)) ?ts"
      by (auto intro: filter_cong)
    then show ?thesis
      using Cons.IH [OF dom, of w] False step keep
      by (auto simp: p first_occurrences_Cons)
  qed
qed

lemma first_occurrences_props:
  "distinct (first_occurrences ts)" "set (first_occurrences ts) = set ts"
  "length (first_occurrences ts) = card (set ts)"
  by (simp_all add: first_occurrences_def length_remdups_card_conv)

lemma consistent_distinct_ids:
  assumes "consistent v" and "distinct (id_to_token v)" and "i < size_vocab v"
  shows "fmlookup (token_to_id v) (id_to_token v ! i) = Some i"
proof -
  have dom: "fmdom' (token_to_id v) = set (id_to_token v)"
    and ids: "\<And>t k. fmlookup (token_to_id v) t = Some k \<Longrightarrow>
          k < length (id_to_token v) \<and> id_to_token v ! k = t"
    using assms(1) unfolding consistent_def by blast+
  have "id_to_token v ! i \<in> fmdom' (token_to_id v)"
    using assms(3) by (simp add: dom size_vocab_def)
  then obtain j where j: "fmlookup (token_to_id v) (id_to_token v ! i) = Some j"
    by (auto simp: fmlookup_dom'_iff)
  then have "j < length (id_to_token v)" "id_to_token v ! j = id_to_token v ! i"
    using ids [OF j] by simp_all
  then have "j = i"
    using assms(2,3) by (simp add: nth_eq_iff_index_eq size_vocab_def)
  then show ?thesis using j by simp
qed

text \<open>
  Claim C8. Loading a file into a fresh vocabulary, in either format, never raises
  because of a duplicate: the vocabulary holds every token once, in the order of the
  first occurrences, its size is the number of distinct tokens, each token keeps the id
  of its first occurrence, and there is one warning for every later occurrence, with
  the token, the path and the line number counted from 1. The lines are those the
  reader yields, so two lines that differ only by carriage returns hold the same
  token. In the default format the tested lines are all the lines of the file
  (\<open>tested_tokens_default\<close>). The witness loads the lines \<open>ab\<close>, \<open>c\<close> and
  \<open>a\rb\<close>: the third is a duplicate of the first.
\<close>

theorem load_skips_duplicates:
  assumes "fs path = Some content"
    and "file_format = ''default'' \<or> file_format = ''sentencepiece''"
    and "two_fields file_format (file_lines content)"
  shows "let pairs = tested_tokens file_format 0 (file_lines content);
             toks = map snd pairs
         in \<exists>v w. from_file path file_format fs = Inr (v, w) \<and>
              id_to_token v = first_occurrences toks \<and>
              size_vocab v = card (set toks) \<and>
              (\<forall>i < size_vocab v. fmlookup (token_to_id v) (id_to_token v ! i) = Some i) \<and>
              w = map (\<lambda>j. (toks ! j, path, fst (pairs ! j) + 1))
                    (filter (\<lambda>j. toks ! j \<in> set (take j toks)) [0..<length pairs])"
proof -
  let ?pairs = "tested_tokens file_format 0 (file_lines content)"
  let ?toks = "map snd ?pairs"
  have fmt: "\<not> file_format \<notin> set [''default'', ''sentencepiece'']"
    using assms(2) by auto
  have run: "from_file path file_format fs =
      Inr (foldl (\<lambda>st (k, token). load_token path k token st) (empty_vocab, []) ?pairs)"
    unfolding from_file_def load_def Vocab_init_def
    by (simp only: fmt if_False assms(1) option.case load_loop_fold [OF assms(3)])
  have "fmdom' (token_to_id empty_vocab) = set []"
    by (simp add: empty_vocab_def)
  from load_tokens_fold [OF this, of path "[]" ?pairs]
  obtain v where v0:
    "foldl (\<lambda>st (k, token). load_token path k token st) (empty_vocab, []) ?pairs =
       (v, [] @ map (\<lambda>(k, token). (token, path, k + 1)) (later_occurrences [] ?pairs))"
    "id_to_token v = id_to_token empty_vocab @ filter (\<lambda>t. t \<notin> set []) (first_occurrences ?toks)"
    "consistent empty_vocab \<longrightarrow> consistent v"
    by blast
  let ?w = "map (\<lambda>(k, token). (token, path, k + 1)) (later_occurrences [] ?pairs)"
  have res: "from_file path file_format fs = Inr (v, ?w)"
    using run v0(1) by simp
  have v: "id_to_token v = first_occurrences ?toks" "consistent v"
    using v0(2,3) consistent_empty by (simp_all add: empty_vocab_def)
  have sz: "size_vocab v = card (set ?toks)"
    by (simp add: size_vocab_def v(1) first_occurrences_props(3))
  have ids: "\<forall>i < size_vocab v. fmlookup (token_to_id v) (id_to_token v ! i) = Some i"
    using consistent_distinct_ids [OF v(2)] by (simp add: v(1) first_occurrences_props(1))
  have w: "?w =
        map (\<lambda>j. (?toks ! j, path, fst (?pairs ! j) + 1))
          (filter (\<lambda>j. ?toks ! j \<in> set (take j ?toks)) [0..<length ?pairs])"
  proof -
    have same: "filter (\<lambda>j. snd (?pairs ! j) \<in> set [] \<union> set (take j ?toks)) [0..<length ?pairs] =
        filter (\<lambda>j. ?toks ! j \<in> set (take j ?toks)) [0..<length ?pairs]"
      by (rule filter_cong) simp_all
    show ?thesis
      unfolding later_occurrences_nth [of "[]" ?pairs] same
      by (simp add: case_prod_beta' comp_def)
  qed
  show ?thesis
    unfolding Let_def by (intro exI [of _ v] exI [of _ ?w] conjI res v(1) sz ids w)
qed

theorem load_skips_duplicates_witness:
  "\<exists>v w. from_file ''v.txt'' ''default''
            (Map.empty(''v.txt'' \<mapsto>
               [CHR ''a'', CHR ''b'', LF, CHR ''c'', LF, CHR ''a'', CR, CHR ''b'', LF])) =
            Inr (v, w) \<and>
         id_to_token v = [''ab'', ''c''] \<and> size_vocab v = 2 \<and>
         fmlookup (token_to_id v) ''ab'' = Some 0 \<and> fmlookup (token_to_id v) ''c'' = Some 1 \<and>
         w = [(''ab'', ''v.txt'', 3)]"
proof -
  let ?content = "[CHR ''a'', CHR ''b'', LF, CHR ''c'', LF, CHR ''a'', CR, CHR ''b'', LF]"
  let ?fs = "Map.empty(''v.txt'' \<mapsto> ?content)"
  have h1: "?fs ''v.txt'' = Some ?content" by simp
  have h2: "''default'' = ''default'' \<or> ''default'' = ''sentencepiece''" by simp
  have h3: "two_fields ''default'' (file_lines ?content)" by (simp add: two_fields_def)
  have pairs: "tested_tokens ''default'' 0 (file_lines ?content) =
      [(0, ''ab''), (1, ''c''), (2, ''ab'')]"
    by (simp add: file_lines_def rstrip_def)
  have firsts: "first_occurrences [''ab'', ''c'', ''ab''] = [''ab'', ''c'']"
    by (simp add: first_occurrences_def)
  have upt: "[0..<3] = [0, 1, 2::nat]" by (simp add: upt_rec)
  have "{''ab'', ''c'', ''ab''} = {''ab'', ''c''}" by auto
  then have card: "card {''ab'', ''c'', ''ab''} = 2" by simp
  have filt: "filter (\<lambda>j. [''ab'', ''c'', ''ab''] ! j \<in> set (take j [''ab'', ''c'', ''ab'']))
      [0, 1, 2] = [2]"
    by simp
  have "\<exists>v w. from_file ''v.txt'' ''default'' ?fs = Inr (v, w) \<and> id_to_token v = [''ab'', ''c''] \<and>
       size_vocab v = 2 \<and>
       (\<forall>i < size_vocab v. fmlookup (token_to_id v) (id_to_token v ! i) = Some i) \<and>
       w = [(''ab'', ''v.txt'', 3)]"
    using load_skips_duplicates [where fs = ?fs and path = "''v.txt''" and content = ?content
      and file_format = "''default''", OF h1 h2 h3]
    unfolding Let_def pairs by (simp add: firsts upt card filt)
  then obtain v w where
    r: "from_file ''v.txt'' ''default'' ?fs = Inr (v, w)" "id_to_token v = [''ab'', ''c'']"
       "size_vocab v = 2"
       "\<forall>i < size_vocab v. fmlookup (token_to_id v) (id_to_token v ! i) = Some i"
       "w = [(''ab'', ''v.txt'', 3)]"
    by blast
  have "0 < size_vocab v" "1 < size_vocab v"
    using r(3) by simp_all
  then have "fmlookup (token_to_id v) (id_to_token v ! 0) = Some 0"
       "fmlookup (token_to_id v) (id_to_token v ! 1) = Some 1"
    using r(4) by blast+
  then have "fmlookup (token_to_id v) ''ab'' = Some 0" "fmlookup (token_to_id v) ''c'' = Some 1"
    by (simp_all add: r(2))
  then show ?thesis using r(1,2,3,5) by blast
qed

section \<open>Properties of pad_to_multiple\<close>

declare dec.simps [simp del]

lemma undec_dec: "undec (dec n) = n"
proof (induction n rule: dec.induct)
  case (1 n)
  show ?case
  proof (cases "n < 10")
    case True
    then show ?thesis
      by (subst dec.simps) (simp add: undec_def)
  next
    case False
    have d: "n mod 10 < 10" by simp
    have "undec (dec n) = 10 * undec (dec (n div 10)) + n mod 10"
      using False d by (subst dec.simps) (simp add: undec_def)
    then show ?thesis
      using 1 False by simp
  qed
qed

lemma inj_dec: "inj dec"
  by (rule inj_on_inverseI [of _ undec]) (rule undec_dec)

lemma inj_filler_token: "inj filler_token"
  using inj_dec by (auto simp: inj_def filler_token_def)

lemma finite_fillers_present:
  "finite {j. i \<le> j \<and> filler_token j \<in> fmdom' m}"
proof -
  have "finite (filler_token -` fmdom' m)"
    by (rule finite_vimageI) (simp_all add: inj_filler_token)
  then show ?thesis
    by (rule rev_finite_subset) auto
qed

lemma distance_decreases:
  fixes x m :: int
  assumes "m \<noteq> 0" and "x mod m \<noteq> 0"
  shows "nat ((- (x + 1)) mod \<bar>m\<bar>) < nat ((- x) mod \<bar>m\<bar>)"
proof -
  let ?a = "\<bar>m\<bar>"
  have a: "0 < ?a" using assms(1) by simp
  have "\<not> m dvd x" using assms(2) by (simp add: dvd_eq_mod_eq_0)
  then have "\<not> ?a dvd - x" by simp
  then have nz: "(- x) mod ?a \<noteq> 0" by (simp add: dvd_eq_mod_eq_0)
  have ge: "0 \<le> (- x) mod ?a" and lt: "(- x) mod ?a < ?a"
    using a by simp_all
  have "(- (x + 1)) mod ?a = ((- x) mod ?a - 1) mod ?a"
    by (simp add: mod_diff_left_eq)
  also have "\<dots> = (- x) mod ?a - 1"
    using ge lt nz by (intro mod_pos_pos_trivial) linarith+
  finally show ?thesis
    using ge nz by linarith
qed

termination pad_loop
proof (relation "measures [\<lambda>(m, b, i, v). nat ((- (int (size_vocab v) + b)) mod \<bar>m\<bar>),
                 \<lambda>(m, b, i, v). card {j. i \<le> j \<and> filler_token j \<in> fmdom' (token_to_id v)}]")
  show "wf (measures [\<lambda>(m, b, i, v). nat ((- (int (size_vocab v) + b)) mod \<bar>m\<bar>),
                 \<lambda>(m, b, i, v). card {j. i \<le> j \<and> filler_token j \<in> fmdom' (token_to_id v)}])"
    by simp
next
  fix multiple num_oov_buckets :: int and i :: nat and v v' :: vocab
  assume m: "multiple \<noteq> 0"
    and r: "(int (size_vocab v) + num_oov_buckets) mod multiple \<noteq> 0"
    and a: "add (filler_token i) v = Inr v'"
  show "((multiple, num_oov_buckets, Suc i, v'), (multiple, num_oov_buckets, i, v))
        \<in> measures [\<lambda>(m, b, i, v). nat ((- (int (size_vocab v) + b)) mod \<bar>m\<bar>),
                 \<lambda>(m, b, i, v). card {j. i \<le> j \<and> filler_token j \<in> fmdom' (token_to_id v)}]"
  proof (cases "fmlookup (token_to_id v) (filler_token i)")
    case None
    then have "size_vocab v' = Suc (size_vocab v)"
      using a by (auto simp: add_def size_vocab_def)
    then have eq: "int (size_vocab v') + num_oov_buckets = (int (size_vocab v) + num_oov_buckets) + 1"
      by simp
    have "nat ((- (int (size_vocab v') + num_oov_buckets)) mod \<bar>multiple\<bar>)
        < nat ((- (int (size_vocab v) + num_oov_buckets)) mod \<bar>multiple\<bar>)"
      unfolding eq by (rule distance_decreases [OF m r])
    then show ?thesis
      by simp
  next
    case (Some k)
    then have same: "size_vocab v' = size_vocab v" "token_to_id v' = token_to_id v"
      using a by (auto simp: add_def size_vocab_def split: if_splits)
    have here: "filler_token i \<in> fmdom' (token_to_id v)"
      using Some by (rule fmdom'I)
    have "i \<in> {j. i \<le> j \<and> filler_token j \<in> fmdom' (token_to_id v)}"
      "i \<notin> {j. Suc i \<le> j \<and> filler_token j \<in> fmdom' (token_to_id v)}"
      using here by simp_all
    moreover have "{j. Suc i \<le> j \<and> filler_token j \<in> fmdom' (token_to_id v)}
        \<subseteq> {j. i \<le> j \<and> filler_token j \<in> fmdom' (token_to_id v)}"
      by auto
    ultimately have "{j. Suc i \<le> j \<and> filler_token j \<in> fmdom' (token_to_id v)}
        \<subset> {j. i \<le> j \<and> filler_token j \<in> fmdom' (token_to_id v)}"
      by blast
    then have "card {j. Suc i \<le> j \<and> filler_token j \<in> fmdom' (token_to_id v)}
        < card {j. i \<le> j \<and> filler_token j \<in> fmdom' (token_to_id v)}"
      by (rule psubset_card_mono [OF finite_fillers_present])
    then show ?thesis
      by (simp add: same)
  qed
qed

declare pad_loop.simps [simp del]

lemma add_consistent:
  assumes "consistent v"
  shows "\<exists>v'. add t v = Inr v' \<and> consistent v' \<and>
           (t \<in> set (id_to_token v) \<longrightarrow>
              id_to_token v' = id_to_token v \<and> token_to_id v' = token_to_id v) \<and>
           (t \<notin> set (id_to_token v) \<longrightarrow>
              id_to_token v' = id_to_token v @ [t] \<and>
              token_to_id v' = fmupd t (length (id_to_token v)) (token_to_id v))"
proof -
  have al: "length (frequency v) = length (id_to_token v)"
    and dom: "fmdom' (token_to_id v) = set (id_to_token v)"
    and ids: "\<And>t k. fmlookup (token_to_id v) t = Some k \<Longrightarrow>
          k < length (id_to_token v) \<and> id_to_token v ! k = t"
    using assms unfolding consistent_def aligned_def by blast+
  show ?thesis
  proof (cases "fmlookup (token_to_id v) t")
    case None
    then have new: "t \<notin> set (id_to_token v)"
      using dom by (metis fmdom'_notI)
    let ?v = "v\<lparr>token_to_id := fmupd t (length (id_to_token v)) (token_to_id v),
                id_to_token := id_to_token v @ [t],
                frequency := frequency v @ [1]\<rparr>"
    have "load_token [] 0 t (v, []) = (?v, [])"
      using new dom by (simp add: load_token_def)
    then have "consistent ?v"
      using load_token_consistent [OF assms] by blast
    moreover have "add t v = Inr ?v"
      using None by (simp add: add_def size_vocab_def)
    ultimately show ?thesis
      using new by simp
  next
    case (Some k)
    then have k: "k < length (frequency v)" and old: "t \<in> set (id_to_token v)"
      using ids [OF Some] al dom fmdom'I [OF Some] by simp_all
    let ?v = "v\<lparr>frequency := (frequency v)[k := frequency v ! k + 1]\<rparr>"
    have "add t v = Inr ?v"
      using Some k by (simp add: add_def)
    moreover have "consistent ?v"
      using assms by (simp add: consistent_def aligned_def)
    ultimately show ?thesis
      using old by simp
  qed
qed

lemma pad_loop_result:
  "multiple \<noteq> 0 \<Longrightarrow> consistent v \<Longrightarrow>
   \<exists>v' new. pad_loop multiple b i v = Inr v' \<and> consistent v' \<and>
     (int (size_vocab v') + b) mod multiple = 0 \<and>
     id_to_token v' = id_to_token v @ new \<and> distinct new \<and>
     set new \<inter> set (id_to_token v) = {} \<and> set new \<subseteq> filler_token ` {i..} \<and>
     (\<forall>t k. fmlookup (token_to_id v) t = Some k \<longrightarrow> fmlookup (token_to_id v') t = Some k)"
proof (induction multiple b i v rule: pad_loop.induct)
  case (1 multiple b i v)
  show ?case
  proof (cases "(int (size_vocab v) + b) mod multiple = 0")
    case True
    then have "pad_loop multiple b i v = Inr v"
      using "1.prems"(1) by (simp add: pad_loop.simps)
    then show ?thesis
      using True "1.prems"(2) by (intro exI [of _ v] exI [of _ "[]"]) simp
  next
    case False
    let ?t = "filler_token i"
    obtain v1 where v1: "add ?t v = Inr v1" "consistent v1"
      and old: "?t \<in> set (id_to_token v) \<Longrightarrow>
          id_to_token v1 = id_to_token v \<and> token_to_id v1 = token_to_id v"
      and new: "?t \<notin> set (id_to_token v) \<Longrightarrow>
          id_to_token v1 = id_to_token v @ [?t] \<and>
          token_to_id v1 = fmupd ?t (length (id_to_token v)) (token_to_id v)"
      using add_consistent [OF "1.prems"(2), of ?t] by blast
    from "1.IH" [OF "1.prems"(1) False v1(1) "1.prems"(1) v1(2)]
    obtain v' new1 where r: "pad_loop multiple b (Suc i) v1 = Inr v'" "consistent v'"
      "(int (size_vocab v') + b) mod multiple = 0"
      "id_to_token v' = id_to_token v1 @ new1" "distinct new1"
      "set new1 \<inter> set (id_to_token v1) = {}" "set new1 \<subseteq> filler_token ` {Suc i..}"
      "\<forall>t k. fmlookup (token_to_id v1) t = Some k \<longrightarrow> fmlookup (token_to_id v') t = Some k"
      by (elim exE conjE) (rule that; assumption)
    have run: "pad_loop multiple b i v = Inr v'"
      using "1.prems"(1) False v1(1) r(1) by (simp add: pad_loop.simps)
    have sub: "filler_token ` {Suc i..} \<subseteq> filler_token ` {i..}"
      by auto
    show ?thesis
    proof (cases "?t \<in> set (id_to_token v)")
      case True
      then show ?thesis
        using run r old sub by (intro exI [of _ v'] exI [of _ new1]) auto
    next
      case False
      have dom: "fmdom' (token_to_id v) = set (id_to_token v)"
        using "1.prems"(2) by (simp add: consistent_def)
      have keep: "fmlookup (token_to_id v1) t = Some k" if "fmlookup (token_to_id v) t = Some k" for t k
      proof -
        have "t \<noteq> ?t" using that False dom fmdom'I by fastforce
        then show ?thesis using that new [OF False] by simp
      qed
      have "?t \<notin> set new1"
        using r(6) new [OF False] by auto
      moreover have "set new1 \<inter> set (id_to_token v) = {}"
        using r(6) new [OF False] by auto
      ultimately show ?thesis
        using run r new [OF False] False sub keep
        by (intro exI [of _ v'] exI [of _ "?t # new1"]) auto
    qed
  qed
qed

text \<open>
  Claim C7. On a consistent vocabulary, as every vocabulary built through the class
  is (\<open>built_from_consistent\<close> below), and for a multiple \<open>m > 0\<close>,
  \<open>pad_to_multiple\<close> returns, and afterwards \<open>(size + b) mod m = 0\<close>. The token list
  is the old one followed by new tokens, which are filler names, pairwise different and
  different from every token that was present; every token that had an id keeps it; and
  when the condition held already the vocabulary is returned unchanged. The witness
  pads a vocabulary that already holds the first filler name.
\<close>

theorem pad_to_multiple_pads:
  assumes "consistent v" and "0 < multiple"
  shows "\<exists>v' new. pad_to_multiple multiple num_oov_buckets v = Inr v' \<and>
           (int (size_vocab v') + num_oov_buckets) mod multiple = 0 \<and>
           id_to_token v' = id_to_token v @ new \<and> distinct new \<and>
           set new \<inter> set (id_to_token v) = {} \<and>
           (\<forall>t \<in> set new. \<exists>i. t = filler_token i) \<and>
           (\<forall>t k. fmlookup (token_to_id v) t = Some k \<longrightarrow>
                  fmlookup (token_to_id v') t = Some k) \<and>
           ((int (size_vocab v) + num_oov_buckets) mod multiple = 0 \<longrightarrow> v' = v)"
proof -
  have m: "multiple \<noteq> 0" using assms(2) by simp
  from pad_loop_result [OF m assms(1), of num_oov_buckets 0]
  obtain v' new where r: "pad_loop multiple num_oov_buckets 0 v = Inr v'"
    "(int (size_vocab v') + num_oov_buckets) mod multiple = 0"
    "id_to_token v' = id_to_token v @ new" "distinct new"
    "set new \<inter> set (id_to_token v) = {}" "set new \<subseteq> filler_token ` {0..}"
    "\<forall>t k. fmlookup (token_to_id v) t = Some k \<longrightarrow> fmlookup (token_to_id v') t = Some k"
    by (elim exE conjE) (rule that; assumption)
  have noop: "(int (size_vocab v) + num_oov_buckets) mod multiple = 0 \<longrightarrow> v' = v"
    using r(1) m by (auto simp: pad_loop.simps)
  have fill: "\<forall>t \<in> set new. \<exists>i. t = filler_token i"
    using r(6) by auto
  show ?thesis
    unfolding pad_to_multiple_def
    by (intro exI [of _ v'] exI [of _ new] conjI r(1-5) fill r(7) noop)
qed

theorem pad_to_multiple_pads_witness:
  "\<exists>v'. pad_to_multiple 3 1
          \<lparr>token_to_id = fmupd ''averyunlikelytoken0'' 0 fmempty,
           id_to_token = [''averyunlikelytoken0''], frequency = [1]\<rparr> = Inr v' \<and>
        (int (size_vocab v') + 1) mod 3 = 0 \<and>
        id_to_token v' = [''averyunlikelytoken0'', ''averyunlikelytoken1''] \<and>
        fmlookup (token_to_id v') ''averyunlikelytoken0'' = Some 0"
proof -
  let ?v = "\<lparr>token_to_id = fmupd ''averyunlikelytoken0'' 0 fmempty,
             id_to_token = [''averyunlikelytoken0''], frequency = [1::enat]\<rparr>"
  have "add ''averyunlikelytoken0'' empty_vocab = Inr ?v"
    by (simp add: add_def empty_vocab_def size_vocab_def)
  then have h1: "consistent ?v"
    using add_consistent [OF consistent_empty, of "''averyunlikelytoken0''"] by auto
  have h2: "(0::int) < 3" by simp
  have digits: "char_of (48::nat) = CHR ''0''" "char_of (49::nat) = CHR ''1''"
    by code_simp+
  have run: "pad_to_multiple 3 1 ?v =
      Inr \<lparr>token_to_id = fmupd ''averyunlikelytoken1'' 1 (fmupd ''averyunlikelytoken0'' 0 fmempty),
           id_to_token = [''averyunlikelytoken0'', ''averyunlikelytoken1''],
           frequency = [2, 1]\<rparr>"
    by (simp add: pad_to_multiple_def pad_loop.simps add_def filler_token_def dec.simps
        size_vocab_def digits)
  from pad_to_multiple_pads [OF h1 h2, of 1] obtain v' where
    r: "pad_to_multiple 3 1 ?v = Inr v'" "(int (size_vocab v') + 1) mod 3 = 0"
      "\<forall>t k. fmlookup (token_to_id ?v) t = Some k \<longrightarrow> fmlookup (token_to_id v') t = Some k"
    by (elim exE conjE) (rule that; assumption)
  have kept: "fmlookup (token_to_id v') ''averyunlikelytoken0'' = Some 0"
    using r(3) by simp
  note eq = r(1) [unfolded run]
  have "v' = \<lparr>token_to_id = fmupd ''averyunlikelytoken1'' 1 (fmupd ''averyunlikelytoken0'' 0 fmempty),
           id_to_token = [''averyunlikelytoken0'', ''averyunlikelytoken1''],
           frequency = [2, 1]\<rparr>"
    using eq [symmetric] by (simp only: sum.inject)
  then have toks: "id_to_token v' = [''averyunlikelytoken0'', ''averyunlikelytoken1'']"
    by (simp only: vocab.simps)
  show ?thesis
    by (intro exI [of _ v'] conjI r(1) r(2) toks kept)
qed

section \<open>Special tokens under prune\<close>

lemma init_loop_appends:
  "index = length (id_to_token v) \<Longrightarrow> length (frequency v) = length (id_to_token v) \<Longrightarrow>
   id_to_token (init_loop index toks v) = id_to_token v @ toks \<and>
   frequency (init_loop index toks v) = frequency v @ replicate (length toks) \<infinity>"
proof (induction toks arbitrary: index v)
  case Nil
  show ?case by simp
next
  case (Cons t toks)
  let ?v = "v\<lparr>token_to_id := fmupd t index (token_to_id v),
               id_to_token := list_insert index t (id_to_token v),
               frequency := list_insert index \<infinity> (frequency v)\<rparr>"
  have "Suc index = length (id_to_token ?v)" "length (frequency ?v) = length (id_to_token ?v)"
    using Cons.prems by (simp_all add: list_insert_def)
  from Cons.IH [OF this] show ?case
    using Cons.prems by (simp add: list_insert_def replicate_app_Cons_same)
qed

lemma special_prefix_init: "special_prefix sp (Vocab_init (Some sp))"
  using init_loop_appends [of 0 empty_vocab sp]
  by (simp add: special_prefix_def aligned_def Vocab_init_def empty_vocab_def)

lemma special_prefix_append:
  assumes "special_prefix sp v"
  shows "special_prefix sp (v\<lparr>token_to_id := m, id_to_token := id_to_token v @ [t],
                               frequency := frequency v @ [1]\<rparr>)"
proof -
  have "length sp \<le> length (id_to_token v)" "length sp \<le> length (frequency v)"
    using assms unfolding special_prefix_def aligned_def
    by (metis length_take min.cobounded1 length_replicate)+
  then show ?thesis
    using assms by (simp add: special_prefix_def aligned_def)
qed

lemma special_prefix_add:
  assumes "special_prefix sp v" and "add token v = Inr v'"
  shows "special_prefix sp v'"
proof (cases "fmlookup (token_to_id v) token")
  case None
  then have "v' = v\<lparr>token_to_id := fmupd token (size_vocab v) (token_to_id v),
                 id_to_token := id_to_token v @ [token],
                 frequency := frequency v @ [1]\<rparr>"
    using assms(2) by (simp add: add_def)
  then show ?thesis
    using special_prefix_append [OF assms(1)] by simp
next
  case (Some i)
  then have i: "i < length (frequency v)"
    and v': "v' = v\<lparr>frequency := (frequency v)[i := frequency v ! i + 1]\<rparr>"
    using assms(2) by (auto simp: add_def split: if_splits)
  let ?k = "length sp"
  have inf: "take ?k (frequency v) = replicate ?k \<infinity>"
    using assms(1) by (simp add: special_prefix_def)
  have "take ?k ((frequency v)[i := frequency v ! i + 1]) = replicate ?k \<infinity>"
  proof (cases "i < ?k")
    case True
    have "frequency v ! i = take ?k (frequency v) ! i"
      using True by simp
    also have "\<dots> = \<infinity>"
      using True by (simp only: inf nth_replicate)
    finally have "(frequency v)[i := frequency v ! i + 1] = frequency v"
      by (simp add: list_update_same_conv i)
    then show ?thesis using inf by simp
  next
    case False
    then show ?thesis using inf by simp
  qed
  then show ?thesis
    using assms(1) by (simp add: v' special_prefix_def aligned_def)
qed

lemma special_prefix_load_token:
  "special_prefix sp v \<Longrightarrow> load_token path i token (v, w) = (v', w') \<Longrightarrow> special_prefix sp v'"
  using special_prefix_append [of sp v]
  by (auto simp: load_token_def split: if_splits)

lemma load_loop_preserves:
  assumes "\<And>i token st. P st \<Longrightarrow> P (load_token path i token st)"
  shows "P st \<Longrightarrow> load_loop path file_format i lines st = Inr st' \<Longrightarrow> P st'"
proof (induction lines arbitrary: i st)
  case Nil
  then show ?case by simp
next
  case (Cons line lines)
  show ?case
  proof (cases "file_format = ''sentencepiece''")
    case False
    then have "load_loop path file_format (Suc i) lines
        (load_token path i (rstrip [CR, LF] line) st) = Inr st'"
      using Cons.prems(2) by (simp add: Let_def)
    then show ?thesis
      using Cons.IH assms [OF Cons.prems(1)] by blast
  next
    case True
    then obtain st1 where "load_loop path file_format (Suc i) lines st1 = Inr st'" "P st1"
      using Cons.prems assms [OF Cons.prems(1)]
      by (auto simp: Let_def split: list.splits if_splits)
    then show ?thesis
      using Cons.IH by blast
  qed
qed

lemma special_prefix_load:
  assumes "special_prefix sp v" and "load path file_format fs v = Inr (v', w)"
  shows "special_prefix sp v'"
proof -
  obtain content where
    "load_loop path file_format 0 (file_lines content) (v, []) = Inr (v', w)"
    using assms(2) by (auto simp: load_def split: if_splits option.splits)
  from load_loop_preserves [where P = "\<lambda>st. special_prefix sp (fst st)", OF _ _ this]
  show ?thesis
    using assms(1) special_prefix_load_token by (metis fst_conv prod.collapse)
qed

lemma special_prefix_pad_loop:
  "special_prefix sp v \<Longrightarrow> pad_loop multiple b i v = Inr v' \<Longrightarrow> special_prefix sp v'"
proof (induction multiple b i v rule: pad_loop.induct)
  case (1 multiple b i v)
  note run = "1.prems"(2) [unfolded pad_loop.simps [of multiple b i v]]
  show ?case
  proof (cases "(int (size_vocab v) + b) mod multiple = 0")
    case True
    then have "v' = v"
      using run by (simp split: if_splits)
    then show ?thesis
      using "1.prems"(1) by simp
  next
    case False
    then have m: "multiple \<noteq> 0"
      using run by (simp split: if_splits)
    obtain v1 where v1: "add (filler_token i) v = Inr v1"
      "pad_loop multiple b (Suc i) v1 = Inr v'"
      using run m False by (cases "add (filler_token i) v") simp_all
    have "special_prefix sp v1"
      using special_prefix_add [OF "1.prems"(1) v1(1)] .
    then show ?thesis
      using "1.IH" [OF m False v1(1) _ v1(2)] by simp
  qed
qed

lemma built_from_special_prefix: "built_from sp v \<Longrightarrow> special_prefix sp v"
  by (induction rule: built_from.induct)
    (auto intro: special_prefix_init special_prefix_add special_prefix_load
      special_prefix_pad_loop simp: pad_to_multiple_def)

lemma map_nth_upt_take: "k \<le> length xs \<Longrightarrow> map (\<lambda>i. xs ! i) [0..<k] = take k xs"
  by (intro nth_equalityI) simp_all

lemma prune_unlimited:
  assumes "aligned v"
  shows "prune 0 m v =
     Inr (fill_loop v (sorted_desc (\<lambda>k. frequency v ! k) [0..<size_vocab v])
            [0..<discard_scan (frequency v) m (sorted_desc (\<lambda>k. frequency v ! k) [0..<size_vocab v])
                   (size_vocab v - 1) (size_vocab v)] empty_vocab)"
  using assms by (simp add: prune_def aligned_def size_vocab_def Let_def)

lemma sorted_ids_infinite_prefix:
  assumes "k \<le> n" and "\<forall>i < k. freq ! i = (\<infinity>::enat)"
  shows "sorted_desc (\<lambda>i. freq ! i) [0..<n] = [0..<k] @ sorted_desc (\<lambda>i. freq ! i) [k..<n]"
proof -
  have "[0..<n] = [0..<k] @ [k..<n]"
    using assms(1) by (metis le_add_diff_inverse upt_add_eq_append zero_le)
  moreover have "\<forall>x \<in> set [0..<k]. \<forall>y \<in> set [0..<k] \<union> set [k..<n]. freq ! y \<le> freq ! x"
    using assms(2) by simp
  ultimately show ?thesis
    using sorted_desc_top_prefix [of "[0..<k]" "[k..<n]" "\<lambda>i. freq ! i"] by simp
qed

text \<open>
  Claim C1. A vocabulary constructed with special tokens, whatever was added or loaded
  afterwards, is pruned with \<open>max_size = 0\<close> and any \<open>min_frequency\<close> (infinity
  included) to a vocabulary that starts with the same special tokens in the same order,
  still with frequency infinity: none is removed and each keeps its id. The witness
  prunes the entry that was added once and keeps the two special tokens.
\<close>

theorem prune_keeps_special_tokens:
  assumes "built_from special_tokens v"
  shows "\<exists>p. prune 0 min_frequency v = Inr p \<and>
           take (length special_tokens) (id_to_token p) = special_tokens \<and>
           take (length special_tokens) (frequency p) = replicate (length special_tokens) \<infinity>"
proof -
  let ?k = "length special_tokens"
  let ?n = "size_vocab v"
  let ?s = "sorted_desc (\<lambda>k. frequency v ! k) [0..<?n]"
  let ?ns = "discard_scan (frequency v) min_frequency ?s (?n - 1) ?n"
  let ?p = "fill_loop v ?s [0..<?ns] empty_vocab"
  have sp: "special_prefix special_tokens v"
    using assms by (rule built_from_special_prefix)
  then have al: "aligned v"
    and ids: "take ?k (id_to_token v) = special_tokens"
    and frq: "take ?k (frequency v) = replicate ?k \<infinity>"
    by (simp_all add: special_prefix_def)
  have kn: "?k \<le> ?n"
    using ids unfolding size_vocab_def by (metis length_take min.cobounded1)
  have inf: "frequency v ! i = \<infinity>" if "i < ?k" for i
  proof -
    have "frequency v ! i = take ?k (frequency v) ! i" using that by simp
    also have "\<dots> = \<infinity>" using that by (simp only: frq nth_replicate)
    finally show ?thesis .
  qed
  have s: "?s = [0..<?k] @ sorted_desc (\<lambda>k. frequency v ! k) [?k..<?n]"
    using sorted_ids_infinite_prefix [OF kn, of "frequency v"] inf by simp
  have s_nth: "?s ! i = i" if "i < ?k" for i
    using that by (simp add: s nth_append)
  have kns: "?k \<le> ?ns"
  proof (cases "?k = 0")
    case True
    then show ?thesis by simp
  next
    case False
    then have pos: "?n = Suc (?n - 1)" and j: "?k - 1 \<le> ?n - 1" and jk: "?k - 1 < ?k"
      using kn by linarith+
    have "\<not> frequency v ! (?s ! (?k - 1)) < min_frequency"
      using s_nth [OF jk] inf [OF jk] by simp
    from discard_scan_keeps [OF j this] have "?k - 1 < ?ns"
      using pos by simp
    then show ?thesis by simp
  qed
  have run: "prune 0 min_frequency v = Inr ?p"
    using al by (rule prune_unlimited)
  have tok: "take ?k (id_to_token ?p) = special_tokens"
  proof -
    have "take ?k (id_to_token ?p) = map (\<lambda>i. id_to_token v ! (?s ! i)) [0..<?k]"
      using kns by (simp add: id_to_token_fill_loop empty_vocab_def take_map min_def)
    also have "\<dots> = map (\<lambda>i. id_to_token v ! i) [0..<?k]"
      using s_nth by simp
    also have "\<dots> = take ?k (id_to_token v)"
      using kn by (simp add: size_vocab_def map_nth_upt_take)
    finally show ?thesis using ids by simp
  qed
  have fr: "take ?k (frequency ?p) = replicate ?k \<infinity>"
  proof -
    have "take ?k (frequency ?p) = map (\<lambda>i. frequency v ! (?s ! i)) [0..<?k]"
      using kns by (simp add: frequency_fill_loop empty_vocab_def take_map min_def)
    also have "\<dots> = map (\<lambda>i. \<infinity>) [0..<?k]"
      using s_nth inf by simp
    finally show ?thesis by (simp add: map_replicate_const)
  qed
  show ?thesis
    using run tok fr by blast
qed

theorem prune_keeps_special_tokens_witness:
  "\<exists>p. prune 0 2 \<lparr>token_to_id = fmupd ''the'' 2 (fmupd ''<s>'' 1 (fmupd ''<blank>'' 0 fmempty)),
                     id_to_token = [''<blank>'', ''<s>'', ''the''],
                     frequency = [\<infinity>, \<infinity>, 1]\<rparr> = Inr p \<and>
       take 2 (id_to_token p) = [''<blank>'', ''<s>''] \<and>
       take 2 (frequency p) = [\<infinity>, \<infinity>]"
proof -
  let ?sp = "[''<blank>'', ''<s>'']"
  let ?v = "\<lparr>token_to_id = fmupd ''the'' 2 (fmupd ''<s>'' 1 (fmupd ''<blank>'' 0 fmempty)),
             id_to_token = [''<blank>'', ''<s>'', ''the''],
             frequency = [\<infinity>, \<infinity>, 1::enat]\<rparr>"
  have "add ''the'' (Vocab_init (Some ?sp)) = Inr ?v"
    by (simp add: add_def Vocab_init_def empty_vocab_def list_insert_def size_vocab_def
        numeral_2_eq_2)
  then have h: "built_from ?sp ?v"
    using built_from.constructed [of ?sp] by (rule built_from.added [rotated])
  have "length ?sp = 2" "replicate 2 (\<infinity>::enat) = [\<infinity>, \<infinity>]"
    by (simp_all add: numeral_2_eq_2)
  with prune_keeps_special_tokens [OF h, of 2] show ?thesis
    by (simp add: numeral_2_eq_2)
qed

section \<open>The invariant of the class\<close>

text \<open>
  Every vocabulary built from \<open>Vocab(special_tokens)\<close> by \<open>add\<close>, \<open>load\<close> and
  \<open>pad_to_multiple\<close> is consistent; \<open>Vocab()\<close> is the case of no special token.
\<close>

lemma init_loop_consistent:
  "consistent v \<Longrightarrow> index = length (id_to_token v) \<Longrightarrow> consistent (init_loop index toks v)"
proof (induction toks arbitrary: index v)
  case Nil
  then show ?case by simp
next
  case (Cons t toks)
  let ?v = "v\<lparr>token_to_id := fmupd t index (token_to_id v),
               id_to_token := list_insert index t (id_to_token v),
               frequency := list_insert index \<infinity> (frequency v)\<rparr>"
  have al: "length (frequency v) = length (id_to_token v)"
    and dom: "fmdom' (token_to_id v) = set (id_to_token v)"
    and ids: "\<And>t k. fmlookup (token_to_id v) t = Some k \<Longrightarrow>
          k < length (id_to_token v) \<and> id_to_token v ! k = t"
    using Cons.prems(1) unfolding consistent_def aligned_def by blast+
  have "fmlookup (token_to_id ?v) s = Some k \<Longrightarrow>
      k < length (id_to_token ?v) \<and> id_to_token ?v ! k = s" for s k
    using ids [of s k] Cons.prems(2)
    by (cases "s = t") (auto simp: list_insert_def nth_append)
  then have "consistent ?v"
    unfolding consistent_def aligned_def
    using al dom Cons.prems(2) by (simp add: list_insert_def)
  moreover have "Suc index = length (id_to_token ?v)"
    using Cons.prems(2) by (simp add: list_insert_def)
  ultimately show ?case
    using Cons.IH [of ?v "Suc index"] by simp
qed

lemma consistent_load:
  assumes "consistent v" and "load path file_format fs v = Inr (v', w)"
  shows "consistent v'"
proof -
  obtain content where
    run: "load_loop path file_format 0 (file_lines content) (v, []) = Inr (v', w)"
    using assms(2) by (auto simp: load_def split: if_splits option.splits)
  have step: "consistent (fst (load_token path i token st))" if "consistent (fst st)"
    for i token st
    using load_token_consistent [of "fst st" path i token "snd st"] that
    by (cases "load_token path i token st") simp
  from load_loop_preserves [where P = "\<lambda>st. consistent (fst st)", OF step _ run]
  show ?thesis
    using assms(1) by simp
qed

lemma built_from_consistent: "built_from sp v \<Longrightarrow> consistent v"
proof (induction rule: built_from.induct)
  case constructed
  show ?case
    using init_loop_consistent [OF consistent_empty, of 0 sp]
    by (simp add: Vocab_init_def empty_vocab_def)
next
  case (added v token v')
  then show ?case
    using add_consistent [of v token] by auto
next
  case (loaded v path file_format fs v' warnings)
  then show ?case
    using consistent_load by blast
next
  case (padded v multiple num_oov_buckets v')
  show ?case
  proof (cases "multiple = 0")
    case True
    then show ?thesis
      using padded(2) by (simp add: pad_to_multiple_def pad_loop.simps)
  next
    case False
    from pad_loop_result [OF False padded(3), of num_oov_buckets 0] show ?thesis
      using padded(2) by (auto simp: pad_to_multiple_def)
  qed
qed

section \<open>Properties of the unknown-token replacement\<close>

lemma map_result_all:
  "\<forall>x \<in> set xs. f x = Inr (g x) \<Longrightarrow> map_result f xs = Inr (map g xs)"
  by (induction xs) auto

lemma argmax_from_max:
  assumes "i = length ys" and "k < i" and "ys ! k = best" and "\<forall>y \<in> set ys. y \<le> best"
  shows "argmax_from best k i rest < length (ys @ rest) \<and>
         (\<forall>y \<in> set (ys @ rest). y \<le> (ys @ rest) ! argmax_from best k i rest)"
  using assms
proof (induction rest arbitrary: ys best k i)
  case Nil
  then show ?case by simp
next
  case (Cons x rest)
  show ?case
  proof (cases "best < x")
    case True
    have "argmax_from x i (Suc i) rest < length ((ys @ [x]) @ rest) \<and>
         (\<forall>y \<in> set ((ys @ [x]) @ rest). y \<le> ((ys @ [x]) @ rest) ! argmax_from x i (Suc i) rest)"
      using Cons.prems True by (intro Cons.IH) (auto simp: nth_append)
    then show ?thesis using True by simp
  next
    case False
    have "argmax_from best k (Suc i) rest < length ((ys @ [x]) @ rest) \<and>
         (\<forall>y \<in> set ((ys @ [x]) @ rest). y \<le> ((ys @ [x]) @ rest) ! argmax_from best k (Suc i) rest)"
      using Cons.prems False by (intro Cons.IH) (auto simp: nth_append)
    then show ?thesis using False by simp
  qed
qed

lemma tf_argmax_index:
  "xs \<noteq> [] \<Longrightarrow> tf_argmax xs = Inr (argmax_index xs)"
  by (cases xs) (simp_all add: tf_argmax_def argmax_index_def)

lemma argmax_index_max:
  assumes "xs \<noteq> []"
  shows "argmax_index xs < length xs" and "\<forall>y \<in> set xs. y \<le> xs ! argmax_index xs"
proof -
  obtain x rest where xs: "xs = x # rest" using assms by (cases xs) auto
  have "argmax_from x 0 1 rest < length ([x] @ rest) \<and>
      (\<forall>y \<in> set ([x] @ rest). y \<le> ([x] @ rest) ! argmax_from x 0 1 rest)"
    by (rule argmax_from_max) simp_all
  then show "argmax_index xs < length xs" and "\<forall>y \<in> set xs. y \<le> xs ! argmax_index xs"
    by (simp_all add: xs argmax_index_def)
qed

lemma shape2_nth: "shape2 b t xs \<Longrightarrow> i < b \<Longrightarrow> length (xs ! i) = t"
  by (simp add: shape2_def)

lemma shape3_nth: "shape3 b t s xs \<Longrightarrow> i < b \<Longrightarrow> shape2 t s (xs ! i)"
  by (simp add: shape3_def)

lemma map_by_index: "map f xs = map (\<lambda>i. f (xs ! i)) [0..<length xs]"
  by (rule nth_equalityI) simp_all

lemma align_tokens_from_attention_shaped:
  assumes src: "shape2 B Ts source" and att: "shape3 B Tt Ts attention" and pos: "0 < Ts"
  shows "align_tokens_from_attention source attention =
     Inr (map (\<lambda>b. map (\<lambda>t. source ! b ! argmax_index (attention ! b ! t)) [0..<Tt]) [0..<B])"
proof -
  have row: "r \<noteq> []" "length r = Ts" if "m \<in> set attention" "r \<in> set m" for m r
    using that att pos by (auto simp: shape3_def shape2_def)
  have inner: "map_result tf_argmax m = Inr (map argmax_index m)" if "m \<in> set attention" for m
    using row(1) [OF that] by (intro map_result_all) (simp add: tf_argmax_index)
  have a1: "map_result (map_result tf_argmax) attention = Inr (map (map argmax_index) attention)"
    using inner by (intro map_result_all) simp
  let ?al = "map (map argmax_index) attention"
  have len: "length source = length ?al"
    using src att by (simp add: shape2_def shape3_def)
  have gather: "tf_gather_row p ix = Inr (map (\<lambda>i. p ! i) ix)"
    if "(p, ix) \<in> set (zip source ?al)" for p ix
  proof -
    have p: "p \<in> set source" and ix: "ix \<in> set ?al"
      using that by (auto dest: set_zip_leftD set_zip_rightD)
    obtain m where m: "m \<in> set attention" "ix = map argmax_index m"
      using ix by auto
    have "i < length p" if mem: "i \<in> set ix" for i
    proof -
      obtain r where r: "r \<in> set m" "i = argmax_index r"
        using mem m(2) by auto
      have "argmax_index r < length r"
        using row(1) [OF m(1) r(1)] by (rule argmax_index_max(1))
      then show ?thesis
        using r(2) row(2) [OF m(1) r(1)] p src by (simp add: shape2_def)
    qed
    then show ?thesis
      unfolding tf_gather_row_def by (intro map_result_all) simp
  qed
  have a2: "tf_gather_batch source ?al =
      Inr (map (\<lambda>(p, ix). map (\<lambda>i. p ! i) ix) (zip source ?al))"
    unfolding tf_gather_batch_def using len gather
    by (simp add: map_result_all [where g = "\<lambda>(p, ix). map (\<lambda>i. p ! i) ix"] case_prod_beta')
  have a3: "map (\<lambda>(p, ix). map (\<lambda>i. p ! i) ix) (zip source ?al) =
      map (\<lambda>b. map (\<lambda>t. source ! b ! argmax_index (attention ! b ! t)) [0..<Tt]) [0..<B]"
  proof (rule nth_equalityI)
    show "length (map (\<lambda>(p, ix). map (\<lambda>i. p ! i) ix) (zip source ?al)) =
        length (map (\<lambda>b. map (\<lambda>t. source ! b ! argmax_index (attention ! b ! t)) [0..<Tt]) [0..<B])"
      using src att by (simp add: shape2_def shape3_def)
  next
    fix b assume "b < length (map (\<lambda>(p, ix). map (\<lambda>i. p ! i) ix) (zip source ?al))"
    then have b: "b < B" "b < length source" "b < length attention"
      using src att by (simp_all add: shape2_def shape3_def)
    have rows: "length (attention ! b) = Tt"
      using shape3_nth [OF att b(1)] by (simp add: shape2_def)
    show "map (\<lambda>(p, ix). map (\<lambda>i. p ! i) ix) (zip source ?al) ! b =
        map (\<lambda>b. map (\<lambda>t. source ! b ! argmax_index (attention ! b ! t)) [0..<Tt]) [0..<B] ! b"
      using b rows map_by_index [of "\<lambda>r. source ! b ! argmax_index r" "attention ! b"]
      by (simp add: comp_def)
  qed
  show ?thesis
    unfolding align_tokens_from_attention_def a1 using a2 a3 by simp
qed

lemma tf_where_shaped:
  assumes c: "shape2 B T c" and x: "shape2 B T x" and y: "shape2 B T y"
  shows "tf_where c x y =
     Inr (map (\<lambda>b. map (\<lambda>t. if c ! b ! t then x ! b ! t else y ! b ! t) [0..<T]) [0..<B])"
proof -
  let ?row = "\<lambda>(c, x, y). map (\<lambda>(c, x, y). if c then x else y) (zip c (zip x y))"
  have row: "(\<lambda>(c, x, y). tf_where_row c x y) q = Inr (?row q)"
    if "q \<in> set (zip c (zip x y))" for q
  proof -
    obtain c' x' y' where q: "q = (c', x', y')" by (cases q)
    have "c' \<in> set c" "x' \<in> set x" "y' \<in> set y"
      using that unfolding q by (auto dest: set_zip_leftD set_zip_rightD)
    then show ?thesis
      using c x y by (simp add: q tf_where_row_def shape2_def)
  qed
  have run: "tf_where c x y = Inr (map ?row (zip c (zip x y)))"
    unfolding tf_where_def using c x y row
    by (simp add: shape2_def map_result_all [where g = ?row])
  have "map ?row (zip c (zip x y)) =
      map (\<lambda>b. map (\<lambda>t. if c ! b ! t then x ! b ! t else y ! b ! t) [0..<T]) [0..<B]"
  proof (rule nth_equalityI)
    show "length (map ?row (zip c (zip x y))) =
        length (map (\<lambda>b. map (\<lambda>t. if c ! b ! t then x ! b ! t else y ! b ! t) [0..<T]) [0..<B])"
      using c x y by (simp add: shape2_def)
  next
    fix b assume "b < length (map ?row (zip c (zip x y)))"
    then have b: "b < B" "b < length c" "b < length x" "b < length y"
      using c x y by (simp_all add: shape2_def)
    have len: "length (c ! b) = T" "length (x ! b) = T" "length (y ! b) = T"
      using shape2_nth [OF c b(1)] shape2_nth [OF x b(1)] shape2_nth [OF y b(1)] by simp_all
    have "map (\<lambda>(c, x, y). if c then x else y) (zip (c ! b) (zip (x ! b) (y ! b))) =
        map (\<lambda>t. if c ! b ! t then x ! b ! t else y ! b ! t) [0..<T]"
      using len by (intro nth_equalityI) simp_all
    then show "map ?row (zip c (zip x y)) ! b =
        map (\<lambda>b. map (\<lambda>t. if c ! b ! t then x ! b ! t else y ! b ! t) [0..<T]) [0..<B] ! b"
      using b by simp
  qed
  then show ?thesis using run by simp
qed

lemma replace_unknown_target_shaped:
  assumes tgt: "shape2 B Tt target_tokens" and src: "shape2 B Ts source_tokens"
    and att: "shape3 B Tt Ts attention" and pos: "0 < Ts"
  shows "replace_unknown_target target_tokens source_tokens attention unknown_token =
     Inr (map (\<lambda>b. map (\<lambda>t. if target_tokens ! b ! t = unknown_token
                              then source_tokens ! b ! argmax_index (attention ! b ! t)
                              else target_tokens ! b ! t) [0..<Tt]) [0..<B])"
proof -
  let ?aligned = "map (\<lambda>b. map (\<lambda>t. source_tokens ! b ! argmax_index (attention ! b ! t)) [0..<Tt])
      [0..<B]"
  have al: "align_tokens_from_attention source_tokens attention = Inr ?aligned"
    using src att pos by (rule align_tokens_from_attention_shaped)
  have s1: "shape2 B Tt ?aligned"
    by (auto simp: shape2_def)
  have s2: "shape2 B Tt (tf_equal target_tokens unknown_token)"
    using tgt by (auto simp: shape2_def tf_equal_def)
  have "tf_where (tf_equal target_tokens unknown_token) ?aligned target_tokens =
      Inr (map (\<lambda>b. map (\<lambda>t. if tf_equal target_tokens unknown_token ! b ! t
                              then ?aligned ! b ! t else target_tokens ! b ! t) [0..<Tt]) [0..<B])"
    using s2 s1 tgt by (rule tf_where_shaped)
  also have "\<dots> = Inr (map (\<lambda>b. map (\<lambda>t. if target_tokens ! b ! t = unknown_token
                              then source_tokens ! b ! argmax_index (attention ! b ! t)
                              else target_tokens ! b ! t) [0..<Tt]) [0..<B])"
    using tgt by (auto simp: tf_equal_def shape2_def)
  finally show ?thesis
    unfolding replace_unknown_target_def al by simp
qed

text \<open>
  Claim C5. For target tokens of shape \<open>[B, Tt]\<close>, source tokens of shape \<open>[B, Ts]\<close>
  and attention of shape \<open>[B, Tt, Ts]\<close> with \<open>Ts > 0\<close>, \<open>replace_unknown_target\<close>
  returns a tensor of the shape of the target in which every position that held the
  unknown token holds the source token of the same batch element at the argmax of the
  attention row of that position, an index whose weight no other weight of the row
  exceeds, and every other position is unchanged. In particular the target
  \<open>[unk, cat]\<close> with source \<open>[the, cat, sat]\<close> becomes \<open>[cat, cat]\<close> whenever the
  argmax of the first attention row is 1.
\<close>

theorem replace_unknown_target_replaces:
  "(shape2 B Tt target_tokens \<and> shape2 B Ts source_tokens \<and> shape3 B Tt Ts attention \<and> 0 < Ts \<longrightarrow>
      (\<exists>result.
         replace_unknown_target target_tokens source_tokens attention unknown_token = Inr result \<and>
         shape2 B Tt result \<and>
         (\<forall>b < B. \<forall>t < Tt.
            argmax_index (attention ! b ! t) < Ts \<and>
            (\<forall>s < Ts. attention ! b ! t ! s \<le> attention ! b ! t ! argmax_index (attention ! b ! t)) \<and>
            result ! b ! t =
              (if target_tokens ! b ! t = unknown_token
               then source_tokens ! b ! argmax_index (attention ! b ! t)
               else target_tokens ! b ! t)))) \<and>
   (\<forall>unk row0 row1.
      length row0 = 3 \<and> length row1 = 3 \<and> argmax_index row0 = 1 \<and> unk \<noteq> ''cat'' \<longrightarrow>
      replace_unknown_target [[unk, ''cat'']] [[''the'', ''cat'', ''sat'']] [[row0, row1]] unk =
        Inr [[''cat'', ''cat'']])"
proof (intro conjI impI allI)
  assume h: "shape2 B Tt target_tokens \<and> shape2 B Ts source_tokens \<and>
      shape3 B Tt Ts attention \<and> 0 < Ts"
  then have tgt: "shape2 B Tt target_tokens" and src: "shape2 B Ts source_tokens"
    and att: "shape3 B Tt Ts attention" and pos: "0 < Ts"
    by simp_all
  let ?result = "map (\<lambda>b. map (\<lambda>t. if target_tokens ! b ! t = unknown_token
                              then source_tokens ! b ! argmax_index (attention ! b ! t)
                              else target_tokens ! b ! t) [0..<Tt]) [0..<B]"
  have run: "replace_unknown_target target_tokens source_tokens attention unknown_token =
      Inr ?result"
    using tgt src att pos by (rule replace_unknown_target_shaped)
  have shape: "shape2 B Tt ?result"
    by (auto simp: shape2_def)
  have cell: "argmax_index (attention ! b ! t) < Ts \<and>
      (\<forall>s < Ts. attention ! b ! t ! s \<le> attention ! b ! t ! argmax_index (attention ! b ! t)) \<and>
      ?result ! b ! t =
        (if target_tokens ! b ! t = unknown_token
         then source_tokens ! b ! argmax_index (attention ! b ! t)
         else target_tokens ! b ! t)"
    if b: "b < B" and t: "t < Tt" for b t
  proof -
    have len: "length (attention ! b ! t) = Ts"
      using shape2_nth [OF shape3_nth [OF att b] t] .
    then have ne: "attention ! b ! t \<noteq> []"
      using pos by auto
    show ?thesis
      using argmax_index_max [OF ne] len b t by simp
  qed
  show "\<exists>result.
      replace_unknown_target target_tokens source_tokens attention unknown_token = Inr result \<and>
      shape2 B Tt result \<and>
      (\<forall>b < B. \<forall>t < Tt.
         argmax_index (attention ! b ! t) < Ts \<and>
         (\<forall>s < Ts. attention ! b ! t ! s \<le> attention ! b ! t ! argmax_index (attention ! b ! t)) \<and>
         result ! b ! t =
           (if target_tokens ! b ! t = unknown_token
            then source_tokens ! b ! argmax_index (attention ! b ! t)
            else target_tokens ! b ! t))"
    by (intro exI [of _ ?result] conjI allI impI run shape cell)
next
  fix unk :: string and row0 row1 :: "'c::linorder list"
  assume h: "length row0 = 3 \<and> length row1 = 3 \<and> argmax_index row0 = 1 \<and> unk \<noteq> ''cat''"
  have "shape2 1 2 [[unk, ''cat'']]" "shape2 1 3 [[''the'', ''cat'', ''sat'']]"
    "shape3 1 2 3 [[row0, row1]]" "(0::nat) < 3"
    using h by (simp_all add: shape2_def shape3_def)
  from replace_unknown_target_shaped [OF this, of unk]
  show "replace_unknown_target [[unk, ''cat'']] [[''the'', ''cat'', ''sat'']] [[row0, row1]] unk =
      Inr [[''cat'', ''cat'']]"
    using h by (auto simp: upt_rec numeral_2_eq_2)
qed

theorem replace_unknown_target_replaces_witness:
  "replace_unknown_target [[''<unk>'', ''cat'']] [[''the'', ''cat'', ''sat'']]
     [[[1 / 10, 7 / 10, 2 / 10], [6 / 10, 3 / 10, 1 / 10 :: real]]] ''<unk>'' =
   Inr [[''cat'', ''cat'']]"
proof -
  have "length [1 / 10, 7 / 10, 2 / 10 :: real] = 3 \<and> length [6 / 10, 3 / 10, 1 / 10 :: real] = 3 \<and>
      argmax_index [1 / 10, 7 / 10, 2 / 10 :: real] = 1 \<and> ''<unk>'' \<noteq> ''cat''"
    by (simp add: argmax_index_def)
  then show ?thesis
    by (rule replace_unknown_target_replaces [THEN conjunct2, rule_format])
qed

section \<open>Properties of dynamic decoding\<close>


text \<open>In the lite mode the restriction is never reached.\<close>

lemma decode_predictions_lite:
  "tflite_mode env \<Longrightarrow> decode_predictions env params out \<noteq> Inr (Predictions predictions)"
  by (auto simp: decode_predictions_def Let_def split: option.splits sum.splits if_splits)

lemma dynamic_decode_lite:
  "tflite_mode env \<Longrightarrow> dynamic_decode env params out = decode_predictions env params out"
  using decode_predictions_lite [of env params out]
  by (cases "decode_predictions env params out")
    (auto simp: dynamic_decode_def split: decoded.splits)



text \<open>
  A \<open>decoding_noise\<close> entry that is false adds no noise: \<open>_add_noise\<close> is not called,
  whatever it would have raised, and the alignment stays in the dictionary. A true
  entry that is not a list raises \<open>ValueError\<close>, and a list of modules drops the
  alignment.
\<close>

lemma decode_predictions_false_noise:
  "decoding_noise params = Some noise \<Longrightarrow> \<not> truthy noise \<Longrightarrow>
   decode_predictions env params out =
     decode_predictions env (params\<lparr>decoding_noise := None\<rparr>) out"
  by (auto simp: decode_predictions_def Let_def split: option.splits sum.splits)

lemma decode_predictions_noise_not_a_list:
  "\<not> tflite_mode env \<Longrightarrow> replace_unknown_target_param params \<noteq> Some True \<Longrightarrow>
   decoding_noise params = Some (Not_a_list True) \<Longrightarrow>
   decode_predictions env params out = Inl ValueError"
  by (simp add: decode_predictions_def add_noise_def)

lemma decode_predictions_noise_drops_alignment:
  "decoding_noise params = Some noise \<Longrightarrow> truthy noise \<Longrightarrow>
   decode_predictions env params out = Inr (Predictions predictions) \<Longrightarrow>
   ''alignment'' \<notin> fst ` set predictions"
  by (auto simp: decode_predictions_def Let_def
      split: option.splits sum.splits if_splits prod.splits)

section \<open>Properties of compute_loss\<close>

text \<open>
  Which loss \<open>compute_loss\<close> returns. With the keys it reads present: when
  \<open>contrastive_learning\<close> is set and the outputs hold noisy logits, it returns the
  max-margin loss of the gold and the noisy logits, with margin \<open>max_margin_eta\<close>
  (0.1 when absent); otherwise it returns the cross-entropy sequence loss computed with
  the configured \<open>label_smoothing\<close> (0 when absent), to which the guided-alignment
  cost is added when training with gold alignments, a guided alignment type and
  attention present.
\<close>

lemma compute_loss_selects:
  assumes "out_logits (bundle_of outputs) = Some logits"
    and "label_ids_out labels = Some ids" and "label_length labels = Some len"
  shows "(contrastive_learning params = Some True \<and>
          out_noisy_logits (bundle_of outputs) = Some noisy_logits \<and>
          label_noisy_ids_out labels = Some noisy_ids \<and>
          label_noisy_length labels = Some noisy_len \<longrightarrow>
            compute_loss losses params outputs labels training =
              Inr (Max_margin (max_margin_loss losses logits ids len noisy_logits noisy_ids noisy_len
                                 (get_or (max_margin_eta params) (1 / 10))), [])) \<and>
         (contrastive_learning params \<noteq> Some True \<or> out_noisy_logits (bundle_of outputs) = None \<longrightarrow>
            (\<exists>loss loss_normalizer loss_token_normalizer.
               cross_entropy_sequence_loss losses logits ids len (label_weight labels)
                 (get_or (label_smoothing params) 0) (get_or (average_loss_in_time params) False)
                 (get_or (mask_loss_outliers params) False) training =
                 (loss, loss_normalizer, loss_token_normalizer) \<and>
               compute_loss losses params outputs labels training =
                 Inr (Cross_entropy (loss + guided_term losses params (bundle_of outputs) labels training)
                        loss_normalizer loss_token_normalizer,
                      guided_warnings params (bundle_of outputs) labels training)))"
proof (intro conjI impI)
  assume "contrastive_learning params = Some True \<and>
          out_noisy_logits (bundle_of outputs) = Some noisy_logits \<and>
          label_noisy_ids_out labels = Some noisy_ids \<and>
          label_noisy_length labels = Some noisy_len"
  then show "compute_loss losses params outputs labels training =
      Inr (Max_margin (max_margin_loss losses logits ids len noisy_logits noisy_ids noisy_len
                         (get_or (max_margin_eta params) (1 / 10))), [])"
    using assms by (simp add: compute_loss_def bundle_of_def [symmetric])
next
  assume other: "contrastive_learning params \<noteq> Some True \<or>
      out_noisy_logits (bundle_of outputs) = None"
  obtain loss n tn where ce:
    "cross_entropy_sequence_loss losses logits ids len (label_weight labels)
       (get_or (label_smoothing params) 0) (get_or (average_loss_in_time params) False)
       (get_or (mask_loss_outliers params) False) training = (loss, n, tn)"
    by (rule prod_cases3)
  have sel: "(if contrastive_learning params = Some True then out_noisy_logits (bundle_of outputs)
      else None) = None"
    using other by auto
  have "compute_loss losses params outputs labels training =
      Inr (Cross_entropy (loss + guided_term losses params (bundle_of outputs) labels training)
             n tn, guided_warnings params (bundle_of outputs) labels training)"
    unfolding compute_loss_def bundle_of_def [symmetric] Let_def
    using assms ce sel
    by (simp add: guided_term_def guided_warnings_def split: option.splits bool.splits)
  then show "\<exists>loss loss_normalizer loss_token_normalizer.
      cross_entropy_sequence_loss losses logits ids len (label_weight labels)
        (get_or (label_smoothing params) 0) (get_or (average_loss_in_time params) False)
        (get_or (mask_loss_outliers params) False) training =
        (loss, loss_normalizer, loss_token_normalizer) \<and>
      compute_loss losses params outputs labels training =
        Inr (Cross_entropy (loss + guided_term losses params (bundle_of outputs) labels training)
               loss_normalizer loss_token_normalizer,
             guided_warnings params (bundle_of outputs) labels training)"
    using ce by blast
qed

lemma compute_loss_selects_example:
  "compute_loss
     \<lparr>max_margin_loss = (\<lambda>logits ids len noisy_logits noisy_ids noisy_len eta. eta),
      cross_entropy_sequence_loss =
        (\<lambda>logits ids len w smoothing average mask training. (3 + smoothing, 1, 1)),
      guided_alignment_cost = (\<lambda>attention gold len guided_type w. 1),
      get_length = (\<lambda>labels. 0 :: nat)\<rparr>
     \<lparr>contrastive_learning = Some True, max_margin_eta = None, label_smoothing = Some (1 / 10),
      average_loss_in_time = None, mask_loss_outliers = None,
      guided_alignment_type = (None :: string option), guided_alignment_weight = None\<rparr>
     (Bundle \<lparr>out_logits = Some ''logits'', out_noisy_logits = Some ''noisy'',
              out_attention = (None :: real list list list option)\<rparr>)
     \<lparr>label_ids_out = Some [1 :: nat], label_length = Some (1 :: nat),
      label_noisy_ids_out = Some [2], label_noisy_length = Some 1,
      label_weight = (None :: real option), label_alignment = (None :: unit option)\<rparr>
     True = Inr (Max_margin (1 / 10), []) \<and>
   compute_loss
     \<lparr>max_margin_loss = (\<lambda>logits ids len noisy_logits noisy_ids noisy_len eta. eta),
      cross_entropy_sequence_loss =
        (\<lambda>logits ids len w smoothing average mask training. (3 + smoothing, 1, 1)),
      guided_alignment_cost = (\<lambda>attention gold len guided_type w. 1),
      get_length = (\<lambda>labels. 0 :: nat)\<rparr>
     \<lparr>contrastive_learning = Some True, max_margin_eta = None, label_smoothing = Some (1 / 10),
      average_loss_in_time = None, mask_loss_outliers = None,
      guided_alignment_type = (None :: string option), guided_alignment_weight = None\<rparr>
     (Bare ''logits'' :: (string, real) outputs)
     \<lparr>label_ids_out = Some [1 :: nat], label_length = Some (1 :: nat),
      label_noisy_ids_out = Some [2], label_noisy_length = Some 1,
      label_weight = (None :: real option), label_alignment = (None :: unit option)\<rparr>
     True = Inr (Cross_entropy (31 / 10) 1 1, [])"
proof -
  let ?L = "\<lparr>max_margin_loss = (\<lambda>logits ids len noisy_logits noisy_ids noisy_len eta. eta),
      cross_entropy_sequence_loss =
        (\<lambda>logits ids len w smoothing average mask training. (3 + smoothing, 1, 1)),
      guided_alignment_cost = (\<lambda>attention gold len guided_type w. 1),
      get_length = (\<lambda>labels. 0 :: nat)\<rparr>
    :: (string, nat list, nat, real, unit, real, string, real) loss_functions"
  let ?P = "\<lparr>contrastive_learning = Some True, max_margin_eta = None,
      label_smoothing = Some (1 / 10), average_loss_in_time = None, mask_loss_outliers = None,
      guided_alignment_type = (None :: string option), guided_alignment_weight = None\<rparr>"
  let ?O = "Bundle \<lparr>out_logits = Some ''logits'', out_noisy_logits = Some ''noisy'',
              out_attention = (None :: real list list list option)\<rparr>"
  let ?B = "Bare ''logits'' :: (string, real) outputs"
  let ?Y = "\<lparr>label_ids_out = Some [1 :: nat], label_length = Some (1 :: nat),
      label_noisy_ids_out = Some [2], label_noisy_length = Some 1,
      label_weight = (None :: real option), label_alignment = (None :: unit option)\<rparr>"
  have a: "out_logits (bundle_of ?O) = Some ''logits''" "out_logits (bundle_of ?B) = Some ''logits''"
    and b: "label_ids_out ?Y = Some [1]" and c: "label_length ?Y = Some 1"
    by (simp_all add: bundle_of_def)
  have "compute_loss ?L ?P ?O ?Y True = Inr (Max_margin (1 / 10), [])"
    using compute_loss_selects [OF a(1) b c, of ?P "''noisy''" "[2]" 1 ?L True]
    by (simp add: bundle_of_def get_or_def)
  moreover have "compute_loss ?L ?P ?B ?Y True = Inr (Cross_entropy (31 / 10) 1 1, [])"
    using compute_loss_selects [OF a(2) b c, of ?P "''noisy''" "[2]" 1 ?L True]
    by (auto simp: bundle_of_def get_or_def guided_term_def guided_warnings_def)
  ultimately show ?thesis by simp
qed

text \<open>
  \<open>compute_loss\<close> only hands the configured \<open>label_smoothing\<close> to the cross-entropy
  function: how the value of the loss depends on the smoothing is decided by that
  function alone. With a cross-entropy function that gives the same result with a
  smoothing \<open>s\<close> as with none, \<open>compute_loss\<close> returns the same with
  \<open>label_smoothing = s\<close> as with the entry absent.
\<close>

lemma compute_loss_label_smoothing_passed_on:
  assumes "label_smoothing params = Some s"
    and "\<And>logits ids len w average mask.
           cross_entropy_sequence_loss losses logits ids len w s average mask training =
           cross_entropy_sequence_loss losses logits ids len w 0 average mask training"
  shows "compute_loss losses params outputs labels training =
         compute_loss losses (params\<lparr>label_smoothing := None\<rparr>) outputs labels training"
  using assms
  by (auto simp: compute_loss_def get_or_def Let_def split: option.splits prod.splits outputs.splits)

end
